theory Spec2Isabelle
  imports Main "HOL-Library.Word" "HOL-Library.AList" "HOL-Library.Sublist"
begin

unbundle bit_operations_syntax

section \<open>Basic types of RegOptionsMgr.cpp\<close>

text \<open>
  \<^verbatim>\<open>String\<close> (a \<^verbatim>\<open>std::basic_string<tchar_t>\<close>) is modelled as \<^typ>\<open>string\<close>: one
  \<^typ>\<open>char\<close> per \<^verbatim>\<open>tchar_t\<close> code unit. \<^verbatim>\<open>DWORD\<close> is a 32-bit word, a registry
  data buffer is a list of bytes.
\<close>

type_synonym byte = "8 word"
type_synonym DWORD = "32 word"

text \<open>The result codes \<^verbatim>\<open>COption::OPT_...\<close> used by this file.\<close>

datatype COption = OPT_OK | OPT_ERR | OPT_WRONG_TYPE | OPT_UNKNOWN_TYPE | OPT_NOTFOUND

text \<open>The Win32 status codes (\<^verbatim>\<open>LONG\<close>, \<^verbatim>\<open>LSTATUS\<close>) the registry model can return.\<close>

datatype LSTATUS =
    ERROR_SUCCESS | ERROR_FILE_NOT_FOUND | ERROR_INVALID_HANDLE
  | ERROR_MORE_DATA | ERROR_NO_MORE_ITEMS | ERROR_KEY_DELETED

definition REG_SZ :: DWORD where "REG_SZ = 1"
definition REG_DWORD :: DWORD where "REG_DWORD = 4"
definition MAX_PATH :: nat where "MAX_PATH = 260"

text \<open>
  Modelled from the spec: \<^verbatim>\<open>varprop::VariantValue\<close> (its header is not part of the
  sources) is "a tagged union over Null, Int (32-bit signed), Bool, String". The Int
  payload is kept as its 32-bit pattern, so the conversions \<^verbatim>\<open>int\<close> to \<^verbatim>\<open>DWORD\<close> and
  back of the source are the identity; \<^term>\<open>sint\<close> reads the signed value.
\<close>

datatype VT_TYPE = VT_NULL | VT_BOOL | VT_INT | VT_STRING

datatype VariantValue = VNull | VBool bool | VInt DWORD | VString string

fun GetType :: "VariantValue \<Rightarrow> VT_TYPE" where
  "GetType VNull = VT_NULL"
| "GetType (VBool b) = VT_BOOL"
| "GetType (VInt i) = VT_INT"
| "GetType (VString s) = VT_STRING"

fun GetString :: "VariantValue \<Rightarrow> string" where
  "GetString (VString s) = s"
| "GetString v = []"

fun GetInt :: "VariantValue \<Rightarrow> DWORD" where
  "GetInt (VInt i) = i"
| "GetInt v = 0"

fun GetBool :: "VariantValue \<Rightarrow> bool" where
  "GetBool (VBool b) = b"
| "GetBool v = False"

text \<open>
  Modelled from the spec: \<^verbatim>\<open>tchar_t\<close> is declared outside the sources; the spec speaks
  of "UTF-encoded bytes" and "a single terminator byte", so a code unit is one byte.
\<close>

definition sizeof_tchar :: nat where "sizeof_tchar = 1"

definition tchar_byte :: "char \<Rightarrow> byte" where
  "tchar_byte c = of_nat (of_char c)"

definition byte_tchar :: "byte \<Rightarrow> char" where
  "byte_tchar b = char_of (unat b)"

text \<open>The memory \<^verbatim>\<open>strVal.c_str()\<close> points at: the code units and the terminator.\<close>

definition c_str :: "string \<Rightarrow> byte list" where
  "c_str s = map tchar_byte s @ [0]"

text \<open>Reading a \<^verbatim>\<open>tchar_t*\<close> C string out of a buffer: the units before the first zero.\<close>

definition tcs_read :: "byte list \<Rightarrow> string" where
  "tcs_read buf = map byte_tchar (takeWhile (\<lambda>b. b \<noteq> 0) buf)"

text \<open>A \<^verbatim>\<open>DWORD\<close> in memory (little endian), and \<^verbatim>\<open>CopyMemory\<close> of four bytes back.\<close>

definition dword_bytes :: "DWORD \<Rightarrow> byte list" where
  "dword_bytes d = [ucast d, ucast (drop_bit 8 d), ucast (drop_bit 16 d), ucast (drop_bit 24 d)]"

definition byte_at :: "byte list \<Rightarrow> nat \<Rightarrow> byte" where
  "byte_at buf i = (if i < length buf then buf ! i else 0)"

definition bytes_dword :: "byte list \<Rightarrow> DWORD" where
  "bytes_dword buf =
     ucast (byte_at buf 0) OR push_bit 8 (ucast (byte_at buf 1))
     OR push_bit 16 (ucast (byte_at buf 2)) OR push_bit 24 (ucast (byte_at buf 3))"

text \<open>\<^verbatim>\<open>std::vector::resize\<close>: cut, or fill with zero bytes.\<close>

definition resize :: "nat \<Rightarrow> byte list \<Rightarrow> byte list" where
  "resize n buf = take n buf @ replicate (n - length buf) 0"

section \<open>Option names\<close>

text \<open>
  Modelled from the spec: \<^verbatim>\<open>COptionsMgr::SplitName\<close> is not part of the sources. An
  option name "splits deterministically into (KeyPath, ValueName) by taking the segment
  after the last / as the value name and the rest as the key path".
\<close>

definition SplitName :: "string \<Rightarrow> string \<times> string" where
  "SplitName strName =
     (let r = rev strName in
      (rev (tl (dropWhile (\<lambda>c. c \<noteq> CHR ''/'') r)), rev (takeWhile (\<lambda>c. c \<noteq> CHR ''/'') r)))"

section \<open>The registry\<close>

text \<open>
  The store behind the Win32 calls: the hive \<^verbatim>\<open>HKEY_CURRENT_USER\<close> is a tree of keys,
  each with named values (type tag and data bytes) and named subkeys. Names compare as
  written (the case folding of the registry is not modelled), access rights are not
  modelled, and no other process touches the hive.
\<close>

datatype regkey =
  RegKey (rk_values: "(string \<times> DWORD \<times> byte list) list") (rk_subkeys: "(string \<times> regkey) list")

definition backslash :: char where "backslash = CHR 0x5C"

text \<open>A key path string denotes the list of its components between backslashes.\<close>

fun path_components :: "string \<Rightarrow> string \<Rightarrow> string list" where
  "path_components cur [] = (if cur = [] then [] else [cur])"
| "path_components cur (c # cs) =
     (if c = backslash then (if cur = [] then path_components [] cs else cur # path_components [] cs)
      else path_components (cur @ [c]) cs)"

definition split_path :: "string \<Rightarrow> string list" where
  "split_path p = path_components [] p"

fun lookup_key :: "regkey \<Rightarrow> string list \<Rightarrow> regkey option" where
  "lookup_key k [] = Some k"
| "lookup_key k (c # cs) =
     (case map_of (rk_subkeys k) c of None \<Rightarrow> None | Some sub \<Rightarrow> lookup_key sub cs)"

fun modify_key :: "(regkey \<Rightarrow> regkey) \<Rightarrow> regkey \<Rightarrow> string list \<Rightarrow> regkey" where
  "modify_key f k [] = f k"
| "modify_key f k (c # cs) =
     (case map_of (rk_subkeys k) c of
        None \<Rightarrow> k
      | Some sub \<Rightarrow> RegKey (rk_values k) (AList.update c (modify_key f sub cs) (rk_subkeys k)))"

fun create_key :: "regkey \<Rightarrow> string list \<Rightarrow> regkey" where
  "create_key k [] = k"
| "create_key k (c # cs) =
     RegKey (rk_values k)
       (AList.update c
          (create_key (case map_of (rk_subkeys k) c of None \<Rightarrow> RegKey [] [] | Some sub \<Rightarrow> sub) cs)
          (rk_subkeys k))"

definition set_value :: "string \<Rightarrow> DWORD \<times> byte list \<Rightarrow> regkey \<Rightarrow> regkey" where
  "set_value n v k = RegKey (AList.update n v (rk_values k)) (rk_subkeys k)"

definition delete_value :: "string \<Rightarrow> regkey \<Rightarrow> regkey" where
  "delete_value n k = RegKey (AList.delete n (rk_values k)) (rk_subkeys k)"

definition clear_key :: "regkey \<Rightarrow> regkey" where
  "clear_key k = RegKey [] []"

text \<open>
  An open handle names the key it was opened on. Deleting a key leaves the handles
  opened on it behind as stale handles.
\<close>

datatype hentry = HLive "string list" | HDeleted

type_synonym HKEY = nat

definition nullptr :: HKEY where "nullptr = 0"

text \<open>A message in the queue of the writer thread, and the place the thread is at.\<close>

datatype MSG = WM_USER string VariantValue | WM_QUIT

datatype worker_pc = W_GetMessage | W_Apply string VariantValue | W_Decrement | W_Exited

text \<open>
  The members of \<^verbatim>\<open>CRegOptionsMgr::IOHandler\<close>, and with them the state of what it
  talks to: the writer thread and its message queue, the registry hive and the table of
  open handles. \<open>n_open_calls\<close> counts the calls of \<^verbatim>\<open>RegCreateKeyEx\<close> and
  \<^verbatim>\<open>RegOpenKeyEx\<close> made so far; \<open>msg_limit\<close> is the number of messages the operating
  system lets a thread queue hold.
\<close>

record sys =
  m_registryRoot :: string
  m_bCloseHandle :: bool
  m_hKeys :: "(string \<times> HKEY) list"
  m_dwQueueCount :: DWORD
  msg_queue :: "MSG list"
  msg_limit :: nat
  worker :: worker_pc
  hkcu :: regkey
  htab :: "HKEY \<Rightarrow> hentry option"
  next_h :: nat
  n_open_calls :: nat

subsection \<open>The Win32 registry calls\<close>

definition handle_path :: "sys \<Rightarrow> HKEY \<Rightarrow> LSTATUS + string list" where
  "handle_path s hKey =
     (if hKey = nullptr then Inl ERROR_INVALID_HANDLE
      else case htab s hKey of
        None \<Rightarrow> Inl ERROR_INVALID_HANDLE
      | Some HDeleted \<Rightarrow> Inl ERROR_KEY_DELETED
      | Some (HLive p) \<Rightarrow> (if lookup_key (hkcu s) p = None then Inl ERROR_KEY_DELETED else Inr p))"

definition new_handle :: "sys \<Rightarrow> string list \<Rightarrow> HKEY \<times> sys" where
  "new_handle s p =
     (Suc (next_h s), s\<lparr>htab := (htab s)(Suc (next_h s) \<mapsto> HLive p), next_h := Suc (next_h s)\<rparr>)"

definition RegCreateKeyEx :: "sys \<Rightarrow> string \<Rightarrow> LSTATUS \<times> HKEY \<times> sys" where
  "RegCreateKeyEx s lpSubKey =
     (let p = split_path lpSubKey;
          s1 = s\<lparr>hkcu := create_key (hkcu s) p, n_open_calls := Suc (n_open_calls s)\<rparr>;
          (h, s2) = new_handle s1 p
      in (ERROR_SUCCESS, h, s2))"

definition RegOpenKeyEx :: "sys \<Rightarrow> string \<Rightarrow> LSTATUS \<times> HKEY \<times> sys" where
  "RegOpenKeyEx s lpSubKey =
     (let p = split_path lpSubKey;
          s1 = s\<lparr>n_open_calls := Suc (n_open_calls s)\<rparr>
      in if lookup_key (hkcu s) p = None then (ERROR_FILE_NOT_FOUND, nullptr, s1)
         else (let (h, s2) = new_handle s1 p in (ERROR_SUCCESS, h, s2)))"

definition RegCloseKey :: "sys \<Rightarrow> HKEY \<Rightarrow> sys" where
  "RegCloseKey s hKey = s\<lparr>htab := (htab s)(hKey := None)\<rparr>"

text \<open>\<^verbatim>\<open>RegSetValueEx\<close> stores the first \<open>cbData\<close> bytes found at \<open>lpData\<close>.\<close>

definition RegSetValueEx :: "sys \<Rightarrow> HKEY \<Rightarrow> string \<Rightarrow> DWORD \<Rightarrow> byte list \<Rightarrow> DWORD \<Rightarrow> LSTATUS \<times> sys" where
  "RegSetValueEx s hKey lpValueName dwType lpData cbData =
     (case handle_path s hKey of
        Inl e \<Rightarrow> (e, s)
      | Inr p \<Rightarrow>
          (ERROR_SUCCESS,
           s\<lparr>hkcu := modify_key (set_value lpValueName (dwType, take (unat cbData) lpData)) (hkcu s) p\<rparr>))"

definition key_value :: "sys \<Rightarrow> string list \<Rightarrow> string \<Rightarrow> (DWORD \<times> byte list) option" where
  "key_value s p n =
     (case lookup_key (hkcu s) p of None \<Rightarrow> None | Some k \<Rightarrow> map_of (rk_values k) n)"

text \<open>
  \<^verbatim>\<open>RegQueryValueEx\<close> with a buffer and its size: the status, the type tag, the buffer
  and the size it reports.
\<close>

definition RegQueryValueEx ::
  "sys \<Rightarrow> HKEY \<Rightarrow> string \<Rightarrow> byte list \<Rightarrow> nat \<Rightarrow> LSTATUS \<times> DWORD \<times> byte list \<times> nat" where
  "RegQueryValueEx s hKey lpValueName lpData cbData =
     (case handle_path s hKey of
        Inl e \<Rightarrow> (e, 0, lpData, cbData)
      | Inr p \<Rightarrow>
          (case key_value s p lpValueName of
             None \<Rightarrow> (ERROR_FILE_NOT_FOUND, 0, lpData, cbData)
           | Some (ty, d) \<Rightarrow>
               if cbData < length d then (ERROR_MORE_DATA, ty, lpData, length d)
               else (ERROR_SUCCESS, ty, d @ drop (length d) lpData, length d)))"

definition RegDeleteValue :: "sys \<Rightarrow> HKEY \<Rightarrow> string \<Rightarrow> LSTATUS \<times> sys" where
  "RegDeleteValue s hKey lpValueName =
     (case handle_path s hKey of
        Inl e \<Rightarrow> (e, s)
      | Inr p \<Rightarrow>
          (if key_value s p lpValueName = None then (ERROR_FILE_NOT_FOUND, s)
           else (ERROR_SUCCESS, s\<lparr>hkcu := modify_key (delete_value lpValueName) (hkcu s) p\<rparr>)))"

text \<open>
  \<^verbatim>\<open>RegDeleteTree(hKey, nullptr)\<close> deletes the values and the subkeys of the key, not
  the key; the handles open on a deleted subkey become stale.
\<close>

definition RegDeleteTree :: "sys \<Rightarrow> HKEY \<Rightarrow> LSTATUS \<times> sys" where
  "RegDeleteTree s hKey =
     (case handle_path s hKey of
        Inl e \<Rightarrow> (e, s)
      | Inr p \<Rightarrow>
          (ERROR_SUCCESS,
           s\<lparr>hkcu := modify_key clear_key (hkcu s) p,
             htab := (\<lambda>h. case htab s h of
                        Some (HLive q) \<Rightarrow> if strict_prefix p q then Some HDeleted else Some (HLive q)
                      | e \<Rightarrow> e)\<rparr>))"

section \<open>CRegOptionsMgr::IOHandler\<close>

text \<open>\<^verbatim>\<open>SetRegRootKey\<close>: the root path, put under \<^verbatim>\<open>Software\\<close>, and its key created.\<close>

definition SetRegRootKey :: "sys \<Rightarrow> string \<Rightarrow> COption \<times> sys" where
  "SetRegRootKey s key =
     (let keyname = (if take (length ''Software'') key = ''Software'' then key
                     else ''Software'' @ [backslash] @ key);
          s1 = s\<lparr>m_registryRoot := keyname\<rparr>;
          (retValReg, hKey, s2) = RegCreateKeyEx s1 (m_registryRoot s1)
      in if retValReg = ERROR_SUCCESS then (OPT_OK, RegCloseKey s2 hKey) else (OPT_ERR, s2))"

definition OpenKey :: "sys \<Rightarrow> string \<Rightarrow> bool \<Rightarrow> HKEY \<times> sys" where
  "OpenKey s strPath bAlwaysCreate =
     (let strRegPath = m_registryRoot s @ strPath in
      case map_of (m_hKeys s) strPath of
        None \<Rightarrow>
          (let (retValReg, hKey, s1) =
                 (if bAlwaysCreate then RegCreateKeyEx s strRegPath else RegOpenKeyEx s strRegPath)
           in if retValReg \<noteq> ERROR_SUCCESS then (nullptr, s1)
              else (hKey, s1\<lparr>m_hKeys := AList.update strPath hKey (m_hKeys s1)\<rparr>))
      | Some hKey \<Rightarrow> (hKey, s))"

definition CloseKey :: "sys \<Rightarrow> HKEY \<Rightarrow> string \<Rightarrow> sys" where
  "CloseKey s hKey strPath =
     (if m_bCloseHandle s then
        (let s1 = (if hKey \<noteq> nullptr then RegCloseKey s hKey else s)
         in s1\<lparr>m_hKeys := AList.delete strPath (m_hKeys s1)\<rparr>)
      else s)"

definition CloseKeys :: "sys \<Rightarrow> sys" where
  "CloseKeys s = (fold (\<lambda>pair s'. RegCloseKey s' (snd pair)) (m_hKeys s) s)\<lparr>m_hKeys := []\<rparr>"

text \<open>
  \<^verbatim>\<open>SaveValueToReg\<close>. The byte count of a string is computed as in the source: the
  length plus one is cut to a \<^verbatim>\<open>DWORD\<close>, multiplied by the size of a code unit, and
  passed as the \<^verbatim>\<open>DWORD\<close> parameter \<open>cbData\<close>.
\<close>

definition SaveValueToReg :: "sys \<Rightarrow> HKEY \<Rightarrow> string \<Rightarrow> VariantValue \<Rightarrow> COption \<times> sys" where
  "SaveValueToReg s hKey strValueName value =
     (let valType = GetType value;
          (retValReg, retVal, s') =
            (if valType = VT_STRING then
               (let strVal = GetString value in
                if length strVal > 0 then
                  (let (r, s1) = RegSetValueEx s hKey strValueName REG_SZ (c_str strVal)
                                   ((of_nat (length strVal + 1) :: DWORD) * of_nat sizeof_tchar)
                   in (r, OPT_OK, s1))
                else
                  (let (r, s1) = RegSetValueEx s hKey strValueName REG_SZ (replicate sizeof_tchar 0)
                                   (of_nat (1 * sizeof_tchar))
                   in (r, OPT_OK, s1)))
             else if valType = VT_INT then
               (let dwordVal = GetInt value;
                    (r, s1) = RegSetValueEx s hKey strValueName REG_DWORD (dword_bytes dwordVal) 4
                in (r, OPT_OK, s1))
             else if valType = VT_BOOL then
               (let dwordVal = (if GetBool value then 1 else 0);
                    (r, s1) = RegSetValueEx s hKey strValueName REG_DWORD (dword_bytes dwordVal) 4
                in (r, OPT_OK, s1))
             else (ERROR_SUCCESS, OPT_UNKNOWN_TYPE, s))
      in (if retValReg \<noteq> ERROR_SUCCESS then OPT_ERR else retVal, s'))"

text \<open>
  \<^verbatim>\<open>Read\<close>: the status, the data buffer and the type tag. The critical section is
  entered and left around the body; the model runs one thread at a time.
\<close>

definition Read :: "sys \<Rightarrow> string \<Rightarrow> byte list \<Rightarrow> (LSTATUS \<times> byte list \<times> DWORD) \<times> sys" where
  "Read s name dataBuf0 =
     (let (strPath, strValueName) = SplitName name;
          (hKey, s1) = OpenKey s strPath False;
          dataBuf = (if length dataBuf0 < 256 then resize 256 dataBuf0 else dataBuf0);
          size = length dataBuf;
          (retValReg, type, dataBuf1, size1) =
            (if hKey \<noteq> nullptr then RegQueryValueEx s1 hKey strValueName (dataBuf[0 := 0]) size
             else (ERROR_FILE_NOT_FOUND, 0, dataBuf, size));
          (retValReg2, type2, dataBuf2) =
            (if retValReg = ERROR_MORE_DATA then
               (let (r, t, b, sz) = RegQueryValueEx s1 hKey strValueName (resize size1 dataBuf1) size1
                in (r, t, b))
             else (retValReg, type, dataBuf1));
          s2 = CloseKey s1 hKey strPath
      in ((retValReg2, dataBuf2, type2), s2))"

subsection \<open>The writer thread\<close>

text \<open>
  \<^verbatim>\<open>PostThreadMessage\<close> fails when the thread is gone or its queue is full.
\<close>

definition PostThreadMessage :: "sys \<Rightarrow> MSG \<Rightarrow> sys option" where
  "PostThreadMessage s msg =
     (if worker s = W_Exited \<or> msg_limit s \<le> length (msg_queue s) then None
      else Some (s\<lparr>msg_queue := msg_queue s @ [msg]\<rparr>))"

definition WriteAsync :: "sys \<Rightarrow> string \<Rightarrow> VariantValue \<Rightarrow> sys" where
  "WriteAsync s name value =
     (let s1 = s\<lparr>m_dwQueueCount := m_dwQueueCount s + 1\<rparr> in
      case PostThreadMessage s1 (WM_USER name value) of
        None \<Rightarrow> s1\<lparr>m_dwQueueCount := m_dwQueueCount s1 - 1\<rparr>
      | Some s2 \<Rightarrow> s2)"

text \<open>
  \<^verbatim>\<open>WriteAsync\<close> as the calling thread runs it, one atomic action at a time: the call
  begins with \<^verbatim>\<open>InterlockedIncrement\<close>; the next action is \<^verbatim>\<open>PostThreadMessage\<close>; after a
  failed post the last action is \<^verbatim>\<open>InterlockedDecrement\<close>. The program counter of the
  caller says which action is next; the writer thread may run between any two of them.
\<close>

datatype caller_pc = C_Idle | C_Post string VariantValue | C_Decrement

definition WriteAsync_begin :: "sys \<Rightarrow> string \<Rightarrow> VariantValue \<Rightarrow> caller_pc \<times> sys" where
  "WriteAsync_begin s name value = (C_Post name value, s\<lparr>m_dwQueueCount := m_dwQueueCount s + 1\<rparr>)"

definition caller_step :: "caller_pc \<times> sys \<Rightarrow> caller_pc \<times> sys" where
  "caller_step c =
     (case fst c of
        C_Idle \<Rightarrow> c
      | C_Post name value \<Rightarrow>
          (case PostThreadMessage (snd c) (WM_USER name value) of
             None \<Rightarrow> (C_Decrement, snd c)
           | Some s2 \<Rightarrow> (C_Idle, s2))
      | C_Decrement \<Rightarrow> (C_Idle, (snd c)\<lparr>m_dwQueueCount := m_dwQueueCount (snd c) - 1\<rparr>))"

text \<open>
  One step of \<^verbatim>\<open>AsyncWriterThreadProc\<close>: \<^verbatim>\<open>GetMessage\<close> takes the next message (and
  blocks on an empty queue); a write message is applied under the critical section;
  then the parameter is freed and the count decremented. \<^verbatim>\<open>WM_QUIT\<close> ends the loop.
\<close>

definition worker_step :: "sys \<Rightarrow> sys" where
  "worker_step s =
     (case worker s of
        W_GetMessage \<Rightarrow>
          (case msg_queue s of
             [] \<Rightarrow> s
           | WM_QUIT # q \<Rightarrow> s\<lparr>msg_queue := q, worker := W_Exited\<rparr>
           | WM_USER name value # q \<Rightarrow> s\<lparr>msg_queue := q, worker := W_Apply name value\<rparr>)
      | W_Apply name value \<Rightarrow>
          (let (strPath, strValueName) = SplitName name;
               (hKey, s1) = OpenKey s strPath True;
               (r, s2) = SaveValueToReg s1 hKey strValueName value;
               s3 = CloseKey s2 hKey strPath
           in s3\<lparr>worker := W_Decrement\<rparr>)
      | W_Decrement \<Rightarrow> s\<lparr>m_dwQueueCount := m_dwQueueCount s - 1, worker := W_GetMessage\<rparr>
      | W_Exited \<Rightarrow> s)"

text \<open>
  The wait loop of \<^verbatim>\<open>Remove\<close> and \<^verbatim>\<open>WaitForQueueFlush\<close>: while the count is not zero,
  \<^verbatim>\<open>Sleep(0)\<close> gives the processor to the writer thread. No other thread runs, so the
  state the loop leaves with does not depend on how many steps the writer makes between
  two polls. A loop that never sees zero does not return: the value is \<open>None\<close>.
\<close>

partial_function (option) wait_queue :: "sys \<Rightarrow> sys option" where
  "wait_queue s = (if m_dwQueueCount s \<noteq> 0 then wait_queue (worker_step s) else Some s)"

definition WaitForQueueFlush :: "sys \<Rightarrow> (COption \<times> sys) option" where
  "WaitForQueueFlush s = (case wait_queue s of None \<Rightarrow> None | Some s1 \<Rightarrow> Some (OPT_OK, s1))"

definition Remove :: "sys \<Rightarrow> string \<Rightarrow> (COption \<times> sys) option" where
  "Remove s name =
     (let (strPath, strValueName) = SplitName name in
      case wait_queue s of
        None \<Rightarrow> None
      | Some s1 \<Rightarrow>
          (let (hKey, s2) = OpenKey s1 strPath True;
               s3 = (if strValueName = [] then snd (RegDeleteTree s2 hKey)
                     else snd (RegDeleteValue s2 hKey strValueName));
               s4 = CloseKey s3 hKey strPath
           in Some (OPT_OK, s4)))"

text \<open>
  The constructor: no handle is closed after use, the count is zero, the writer thread
  waits on its empty queue, and the root key is set.
\<close>

definition IOHandler :: "sys \<Rightarrow> string \<Rightarrow> sys" where
  "IOHandler env path =
     snd (SetRegRootKey
            (env\<lparr>m_bCloseHandle := False, m_hKeys := [], m_dwQueueCount := 0,
                 msg_queue := [], worker := W_GetMessage\<rparr>) path)"

section \<open>The option table\<close>

text \<open>
  Modelled from the spec: the base class \<^verbatim>\<open>COptionsMgr\<close> is not part of the sources.
  Its table maps an option name to a value and "exposes Get(name) -> VariantValue|Null,
  Set(name, value) -> Ok|WrongType|NotFound, Add(name, value) -> Ok|Err". The table is
  kept as a list of (name, value) entries in the order the \<^verbatim>\<open>std::map\<close> is walked.
  \<^verbatim>\<open>RemoveOption\<close> of the base class removes the one option of that name.
\<close>

type_synonym OptionsMap = "(string \<times> VariantValue) list"

definition COptionsMgr_Get :: "OptionsMap \<Rightarrow> string \<Rightarrow> VariantValue" where
  "COptionsMgr_Get om name = (case map_of om name of None \<Rightarrow> VNull | Some v \<Rightarrow> v)"

definition COptionsMgr_Set :: "OptionsMap \<Rightarrow> string \<Rightarrow> VariantValue \<Rightarrow> COption \<times> OptionsMap" where
  "COptionsMgr_Set om name value =
     (case map_of om name of
        None \<Rightarrow> (OPT_NOTFOUND, om)
      | Some old \<Rightarrow>
          if GetType old = GetType value then (OPT_OK, AList.update name value om)
          else (OPT_WRONG_TYPE, om))"

definition COptionsMgr_AddOption :: "OptionsMap \<Rightarrow> string \<Rightarrow> VariantValue \<Rightarrow> COption \<times> OptionsMap" where
  "COptionsMgr_AddOption om name defaultValue =
     (if GetType defaultValue = VT_NULL then (OPT_ERR, om)
      else (OPT_OK, AList.update name defaultValue om))"

definition COptionsMgr_RemoveOption :: "OptionsMap \<Rightarrow> string \<Rightarrow> COption \<times> OptionsMap" where
  "COptionsMgr_RemoveOption om name =
     (if map_of om name = None then (OPT_NOTFOUND, om) else (OPT_OK, AList.delete name om))"

section \<open>CRegOptionsMgr\<close>

record CRegOptionsMgr =
  m_serializing :: bool
  m_optionsMap :: OptionsMap
  m_pIOHandler :: sys

definition CRegOptionsMgr_new :: "sys \<Rightarrow> string \<Rightarrow> CRegOptionsMgr" where
  "CRegOptionsMgr_new env path =
     \<lparr>m_serializing = True, m_optionsMap = [], m_pIOHandler = IOHandler env path\<rparr>"

definition Set_opt :: "CRegOptionsMgr \<Rightarrow> string \<Rightarrow> VariantValue \<Rightarrow> COption \<times> CRegOptionsMgr" where
  "Set_opt m name value =
     (let (r, om) = COptionsMgr_Set (m_optionsMap m) name value in (r, m\<lparr>m_optionsMap := om\<rparr>))"

definition AddOption :: "CRegOptionsMgr \<Rightarrow> string \<Rightarrow> VariantValue \<Rightarrow> COption \<times> CRegOptionsMgr" where
  "AddOption m name defaultValue =
     (let (r, om) = COptionsMgr_AddOption (m_optionsMap m) name defaultValue
      in (r, m\<lparr>m_optionsMap := om\<rparr>))"

text \<open>
  \<^verbatim>\<open>LoadValueFromBuf\<close>: \<open>type\<close> is the tag the registry reported, \<open>data\<close> the buffer,
  \<open>value\<close> the value whose type the caller expects.
\<close>

definition LoadValueFromBuf ::
  "CRegOptionsMgr \<Rightarrow> string \<Rightarrow> DWORD \<Rightarrow> byte list \<Rightarrow> VariantValue \<Rightarrow> COption \<times> CRegOptionsMgr" where
  "LoadValueFromBuf m strName type data value =
     (let valType = GetType value in
      if type = REG_SZ \<and> valType = VT_STRING then Set_opt m strName (VString (tcs_read data))
      else if type = REG_DWORD then
        (if valType = VT_INT then Set_opt m strName (VInt (bytes_dword data))
         else if valType = VT_BOOL then Set_opt m strName (VBool (bytes_dword data > 0))
         else (OPT_WRONG_TYPE, m))
      else (OPT_WRONG_TYPE, m))"

definition InitOption :: "CRegOptionsMgr \<Rightarrow> string \<Rightarrow> VariantValue \<Rightarrow> COption \<times> CRegOptionsMgr" where
  "InitOption m name defaultValue =
     (let valType = GetType defaultValue in
      if valType = VT_NULL then (OPT_ERR, m)
      else if \<not> m_serializing m then AddOption m name defaultValue
      else
        (let (retVal, m1) = AddOption m name defaultValue in
         if retVal = OPT_OK then
           (let ((st, dataBuf, type), s1) = Read (m_pIOHandler m1) name (replicate 256 0);
                m2 = m1\<lparr>m_pIOHandler := s1\<rparr>
            in if st = ERROR_SUCCESS then LoadValueFromBuf m2 name type dataBuf defaultValue
               else (retVal, m2))
         else (retVal, m1)))"

definition SaveOption :: "CRegOptionsMgr \<Rightarrow> string \<Rightarrow> COption \<times> CRegOptionsMgr" where
  "SaveOption m name =
     (if \<not> m_serializing m then (OPT_OK, m)
      else
        (let value = COptionsMgr_Get (m_optionsMap m) name in
         if GetType value = VT_NULL then (OPT_NOTFOUND, m)
         else (OPT_OK, m\<lparr>m_pIOHandler := WriteAsync (m_pIOHandler m) name value\<rparr>)))"

definition SaveOption_value :: "CRegOptionsMgr \<Rightarrow> string \<Rightarrow> VariantValue \<Rightarrow> COption \<times> CRegOptionsMgr" where
  "SaveOption_value m name value =
     (let (retVal, m1) = Set_opt m name value in
      if retVal = OPT_OK then SaveOption m1 name else (retVal, m1))"

text \<open>The loop of \<^verbatim>\<open>RemoveOption\<close> over the table, for a name that denotes a key.\<close>

fun RemoveOption_loop :: "string \<Rightarrow> OptionsMap \<Rightarrow> OptionsMap" where
  "RemoveOption_loop strPath [] = []"
| "RemoveOption_loop strPath ((key, v) # rest) =
     (if take (length strPath) key = strPath \<and> length key > length strPath
         \<and> key ! length strPath = CHR ''/''
      then RemoveOption_loop strPath rest
      else (key, v) # RemoveOption_loop strPath rest)"

definition RemoveOption :: "CRegOptionsMgr \<Rightarrow> string \<Rightarrow> (COption \<times> CRegOptionsMgr) option" where
  "RemoveOption m name =
     (let (strPath, strValueName) = SplitName name;
          (retVal, om) =
            (if strValueName \<noteq> [] then COptionsMgr_RemoveOption (m_optionsMap m) name
             else (OPT_OK, RemoveOption_loop strPath (m_optionsMap m)))
      in case Remove (m_pIOHandler m) name of
           None \<Rightarrow> None
         | Some (r, s1) \<Rightarrow> Some (retVal, m\<lparr>m_optionsMap := om, m_pIOHandler := s1\<rparr>))"

definition FlushOptions :: "CRegOptionsMgr \<Rightarrow> (COption \<times> CRegOptionsMgr) option" where
  "FlushOptions m =
     (case WaitForQueueFlush (m_pIOHandler m) of
        None \<Rightarrow> None
      | Some (r, s1) \<Rightarrow> Some (r, m\<lparr>m_pIOHandler := s1\<rparr>))"

section \<open>Export and import of the values that are not options\<close>

subsection \<open>The flat file and the text of values\<close>

text \<open>
  The file written by \<^verbatim>\<open>WritePrivateProfileString\<close>: every section lists its keys with
  their text, each key once. A call with a null string deletes the key. The calls act on
  the one file the export or import names; failures of the file system are not modelled.
\<close>

type_synonym inifile = "string \<Rightarrow> (string \<times> string) list"

definition WritePrivateProfileString :: "string \<Rightarrow> string \<Rightarrow> string option \<Rightarrow> inifile \<Rightarrow> inifile" where
  "WritePrivateProfileString lpAppName lpKeyName lpString ini =
     ini(lpAppName :=
       (case lpString of
          None \<Rightarrow> AList.delete lpKeyName (ini lpAppName)
        | Some str \<Rightarrow> AList.update lpKeyName str (ini lpAppName)))"


text \<open>
  Modelled from the spec: \<^verbatim>\<open>strutils::to_str\<close> is not part of the sources; an Int is
  "formatted as decimal text".
\<close>

definition digit_char :: "nat \<Rightarrow> char" where
  "digit_char d = char_of (48 + d)"

function nat_digits :: "nat \<Rightarrow> string" where
  "nat_digits n = (if n < 10 then [digit_char n] else nat_digits (n div 10) @ [digit_char (n mod 10)])"
  by pat_completeness auto
termination
  by (relation "measure (\<lambda>n. n)") auto

declare nat_digits.simps [simp del]

definition to_str :: "int \<Rightarrow> string" where
  "to_str i = (if i < 0 then CHR ''-'' # nat_digits (nat (- i)) else nat_digits (nat i))"









subsection \<open>ExportAllUnloadedValues\<close>

text \<open>
  \<^verbatim>\<open>RegEnumValue\<close> on a value of the key, with a name buffer of \<open>cchValueName\<close> units and
  the data buffer \<open>data\<close> of \<open>cbData\<close> bytes: \<^verbatim>\<open>ERROR_MORE_DATA\<close> when the name with its
  terminator or the data do not fit, with the size needed in \<open>cbData\<close>; else the name,
  the tag and the data at the front of the buffer.
\<close>

definition RegEnumValue ::
  "string \<times> DWORD \<times> byte list \<Rightarrow> nat \<Rightarrow> byte list \<Rightarrow> DWORD \<Rightarrow> LSTATUS \<times> string \<times> DWORD \<times> byte list \<times> DWORD" where
  "RegEnumValue v cchValueName data cbData =
     (let (n, ty, d) = v in
      if cchValueName \<le> length n \<or> unat cbData < length d
      then (ERROR_MORE_DATA, [], ty, data, of_nat (length d))
      else (ERROR_SUCCESS, n, ty, d @ drop (length d) data, of_nat (length d)))"

text \<open>
  The head of the loop over the values: the call, and on \<^verbatim>\<open>ERROR_MORE_DATA\<close> the second
  call with the buffer resized to twice the size reported.
\<close>

definition enum_value :: "string \<times> DWORD \<times> byte list \<Rightarrow> byte list \<Rightarrow> LSTATUS \<times> string \<times> DWORD \<times> byte list" where
  "enum_value v data =
     (let (result, szValueName, dwType, data1, cbData) =
            RegEnumValue v MAX_PATH data (of_nat (length data))
      in if result = ERROR_MORE_DATA then
           (let cbData2 = cbData * 2;
                data2 = resize (unat cbData2) data1;
                (result2, szValueName2, dwType2, data3, cbData3) = RegEnumValue v MAX_PATH data2 cbData2
            in (result2, szValueName2, dwType2, data3))
         else (result, szValueName, dwType, data1))"

text \<open>
  The loop over the values of a key. The index runs over the values in their order, so
  the loop is the recursion over the list; the end of the list is
  \<^verbatim>\<open>ERROR_NO_MORE_ITEMS\<close>. The data buffer lives through the loop.
\<close>

fun export_values ::
  "(string \<Rightarrow> string) \<Rightarrow> string \<Rightarrow> OptionsMap \<Rightarrow> (string \<times> DWORD \<times> byte list) list \<Rightarrow> byte list
     \<Rightarrow> inifile \<Rightarrow> COption \<times> inifile" where
  "export_values EscapeValue strPath optionsMap [] data ini = (OPT_OK, ini)"
| "export_values EscapeValue strPath optionsMap (v # vs) data ini =
     (case enum_value v data of
        (result, szValueName, dwType, data1) \<Rightarrow>
          if result = ERROR_SUCCESS then
            (let strName = strPath @ ''/'' @ szValueName;
                 ini1 =
                   (if map_of optionsMap strName = None then
                      (if dwType = REG_DWORD then
                         WritePrivateProfileString ''WinMerge.TypeInfo'' strName (Some ''int'')
                           (WritePrivateProfileString ''WinMerge'' strName
                              (Some (to_str (sint (bytes_dword data1)))) ini)
                       else if dwType = REG_SZ then
                         WritePrivateProfileString ''WinMerge.TypeInfo'' strName (Some ''string'')
                           (WritePrivateProfileString ''WinMerge'' strName
                              (Some (EscapeValue (tcs_read data1)))
                              (WritePrivateProfileString ''WinMerge'' strName None ini))
                       else ini)
                    else ini)
             in export_values EscapeValue strPath optionsMap vs data1 ini1)
          else (OPT_ERR, ini))"

text \<open>
  The function on an open key, and its loop over the subkeys. \<^verbatim>\<open>RegEnumKeyEx\<close> reports
  \<^verbatim>\<open>ERROR_MORE_DATA\<close> for a name that does not fit the buffer of \<^verbatim>\<open>MAX_PATH\<close> units;
  \<^verbatim>\<open>RegOpenKeyEx\<close> on an enumerated subkey opens that subkey.
\<close>

fun ExportAllUnloadedValues_key ::
  "(string \<Rightarrow> string) \<Rightarrow> regkey \<Rightarrow> string \<Rightarrow> OptionsMap \<Rightarrow> inifile \<Rightarrow> COption \<times> inifile"
and export_subkeys ::
  "(string \<Rightarrow> string) \<Rightarrow> (string \<times> regkey) list \<Rightarrow> string \<Rightarrow> OptionsMap \<Rightarrow> inifile \<Rightarrow> COption \<times> inifile"
where
  "ExportAllUnloadedValues_key EscapeValue (RegKey vals subs) strPath optionsMap ini =
     (case export_values EscapeValue strPath optionsMap vals (replicate MAX_PATH 0) ini of
        (retVal, ini1) \<Rightarrow>
          if retVal \<noteq> OPT_OK then (retVal, ini1)
          else export_subkeys EscapeValue subs strPath optionsMap ini1)"
| "export_subkeys EscapeValue [] strPath optionsMap ini = (OPT_OK, ini)"
| "export_subkeys EscapeValue ((szSubKey, sub) # rest) strPath optionsMap ini =
     (if MAX_PATH \<le> length szSubKey then (OPT_ERR, ini)
      else
        (case ExportAllUnloadedValues_key EscapeValue sub
                (if strPath = [] then szSubKey else strPath @ [backslash] @ szSubKey) optionsMap ini of
           (retVal, ini1) \<Rightarrow>
             if retVal \<noteq> OPT_OK then (retVal, ini1)
             else export_subkeys EscapeValue rest strPath optionsMap ini1))"

text \<open>
  The entry point opens the root key for reading; the handle it opens and closes is
  not entered in the handle table.
\<close>

definition ExportAllUnloadedValues ::
  "(string \<Rightarrow> string) \<Rightarrow> sys \<Rightarrow> OptionsMap \<Rightarrow> inifile \<Rightarrow> COption \<times> inifile" where
  "ExportAllUnloadedValues EscapeValue s optionsMap ini =
     (case lookup_key (hkcu s) (split_path (m_registryRoot s)) of
        None \<Rightarrow> (OPT_ERR, ini)
      | Some hKey \<Rightarrow> ExportAllUnloadedValues_key EscapeValue hKey [] optionsMap ini)"

subsection \<open>ImportAllUnloadedValues\<close>




section \<open>Example states\<close>

text \<open>
  An empty hive with no open handle, the root path the application passes to the
  constructor, and the handler constructed on it.
\<close>

definition env0 :: sys where
  "env0 = \<lparr>m_registryRoot = [], m_bCloseHandle = False, m_hKeys = [], m_dwQueueCount = 0,
            msg_queue = [], msg_limit = 10000, worker = W_GetMessage, hkcu = RegKey [] [],
            htab = (\<lambda>h. None), next_h = 0, n_open_calls = 0\<rparr>"

definition winmerge_root :: string where
  "winmerge_root = ''Thingamahoochie'' @ [backslash] @ ''WinMerge'' @ [backslash]"

definition sys0 :: sys where "sys0 = IOHandler env0 winmerge_root"

section \<open>Properties of states\<close>

text \<open>
  The writes in flight: the write messages in the queue of the writer thread, and the
  one the thread has taken and not yet counted off.
\<close>

fun is_write :: "MSG \<Rightarrow> bool" where
  "is_write (WM_USER name value) = True"
| "is_write WM_QUIT = False"

definition in_flight :: "sys \<Rightarrow> nat" where
  "in_flight s =
     length (filter is_write (msg_queue s))
     + (case worker s of W_Apply name value \<Rightarrow> 1 | W_Decrement \<Rightarrow> 1 | W_GetMessage \<Rightarrow> 0 | W_Exited \<Rightarrow> 0)"

text \<open>
  The count agrees with the writes in flight; the queue holds no more messages than the
  operating system allows, and that limit is far below the range of a \<^verbatim>\<open>DWORD\<close>.
\<close>

definition queue_inv :: "sys \<Rightarrow> bool" where
  "queue_inv s \<longleftrightarrow>
     unat (m_dwQueueCount s) = in_flight s \<and> length (msg_queue s) \<le> msg_limit s
     \<and> msg_limit s + 1 < 2 ^ 32"

text \<open>The writer thread runs and has not been told to quit.\<close>

definition worker_alive :: "sys \<Rightarrow> bool" where
  "worker_alive s \<longleftrightarrow> worker s \<noteq> W_Exited \<and> WM_QUIT \<notin> set (msg_queue s)"

text \<open>The members and the thread state that the registry calls leave alone.\<close>

definition same_control :: "sys \<Rightarrow> sys \<Rightarrow> bool" where
  "same_control s s' \<longleftrightarrow>
     m_registryRoot s' = m_registryRoot s \<and> m_bCloseHandle s' = m_bCloseHandle s
     \<and> m_dwQueueCount s' = m_dwQueueCount s \<and> msg_queue s' = msg_queue s
     \<and> msg_limit s' = msg_limit s \<and> worker s' = worker s"

text \<open>What the hive holds under an option name, below the root of the handler.\<close>

definition stored :: "sys \<Rightarrow> string \<Rightarrow> (DWORD \<times> byte list) option" where
  "stored s name =
     key_value s (split_path (m_registryRoot s @ fst (SplitName name))) (snd (SplitName name))"

text \<open>
  Every cached handle is open on the key its path names (none is stale), and is one of
  the handles given out so far.
\<close>

definition cache_ok :: "sys \<Rightarrow> bool" where
  "cache_ok s \<longleftrightarrow>
     (\<forall>(p, h) \<in> set (m_hKeys s).
        handle_path s h = Inr (split_path (m_registryRoot s @ p)) \<and> h \<le> next_h s)"

text \<open>
  Runs of the system: the caller posts writes, the writer thread makes steps, in any
  order.
\<close>

datatype event = EvWriteAsync string VariantValue | EvWorkerStep

fun run :: "sys \<Rightarrow> event list \<Rightarrow> sys" where
  "run s [] = s"
| "run s (EvWriteAsync name value # evs) = run (WriteAsync s name value) evs"
| "run s (EvWorkerStep # evs) = run (worker_step s) evs"

definition mgr0 :: CRegOptionsMgr where
  "mgr0 = CRegOptionsMgr_new env0 winmerge_root"

text \<open>
  What the writer thread does with one write message under the critical section, and
  the number of steps the thread still has to make until its queue is empty.
\<close>

definition apply_write :: "sys \<Rightarrow> string \<Rightarrow> VariantValue \<Rightarrow> sys" where
  "apply_write s name value =
     (let (strPath, strValueName) = SplitName name;
          (hKey, s1) = OpenKey s strPath True;
          (r, s2) = SaveValueToReg s1 hKey strValueName value
      in CloseKey s2 hKey strPath)"

definition work_left :: "sys \<Rightarrow> nat" where
  "work_left s = 3 * length (msg_queue s)
     + (case worker s of W_Apply name value \<Rightarrow> 2 | W_Decrement \<Rightarrow> 1 | W_GetMessage \<Rightarrow> 0 | W_Exited \<Rightarrow> 0)"

text \<open>
  The open handles are the cached ones: every path is cached once, every handle under
  one path, and no other handle is open.
\<close>

definition handles_inv :: "sys \<Rightarrow> bool" where
  "handles_inv s \<longleftrightarrow>
     distinct (map fst (m_hKeys s)) \<and> distinct (map snd (m_hKeys s))
     \<and> (\<forall>(p, h) \<in> set (m_hKeys s). h \<noteq> nullptr \<and> h \<le> next_h s \<and> htab s h \<noteq> None)
     \<and> (\<forall>h. htab s h \<noteq> None \<longrightarrow> h \<in> snd ` set (m_hKeys s))"

text \<open>The value of a name under a key path of a hive.\<close>

definition kv :: "regkey \<Rightarrow> string list \<Rightarrow> string \<Rightarrow> (DWORD \<times> byte list) option" where
  "kv k q n = (case lookup_key k q of None \<Rightarrow> None | Some x \<Rightarrow> map_of (rk_values x) n)"

text \<open>
  What \<^verbatim>\<open>SaveValueToReg\<close> leaves under the value name on an open key: the tag and the
  bytes of the value; nothing for a Null value.
\<close>

definition reg_payload :: "VariantValue \<Rightarrow> (DWORD \<times> byte list) option" where
  "reg_payload v =
     (case v of
        VNull \<Rightarrow> None
      | VBool b \<Rightarrow> Some (REG_DWORD, dword_bytes (if b then 1 else 0))
      | VInt d \<Rightarrow> Some (REG_DWORD, dword_bytes d)
      | VString str \<Rightarrow>
          Some (REG_SZ, take (unat ((of_nat (length str + 1) :: DWORD) * of_nat sizeof_tchar)) (c_str str)))"

text \<open>
  Handlers whose hive holds a value under \<^verbatim>\<open>Settings/Width\<close>, written by the writer
  thread: a string, and an integer; and the managers on them.
\<close>

definition sys_str :: sys where
  "sys_str = apply_write sys0 ''Settings/Width'' (VString ''wide'')"

definition sys_int :: sys where
  "sys_int = apply_write sys0 ''Settings/Width'' (VInt 250)"

definition mgr_str :: CRegOptionsMgr where
  "mgr_str = mgr0\<lparr>m_pIOHandler := sys_str\<rparr>"

definition mgr_int :: CRegOptionsMgr where
  "mgr_int = mgr0\<lparr>m_pIOHandler := sys_int\<rparr>"

text \<open>A manager with four options in its table, on the handler that stores a width.\<close>

definition mgr_opts :: CRegOptionsMgr where
  "mgr_opts =
     mgr_int\<lparr>m_optionsMap :=
       [(''Other/X'', VInt 1), (''Settings/Height'', VInt 2), (''Settings/Width'', VInt 250),
        (''SettingsX/Y'', VInt 3)]\<rparr>"

section \<open>What an export writes\<close>

text \<open>
  The values of a key and of the keys below it, in the order of the walk, each under
  the name the export gives it; the values the export is to write (the name is not an
  option, the tag is \<^verbatim>\<open>REG_DWORD\<close> or \<^verbatim>\<open>REG_SZ\<close>); the type tag and the text it writes for
  a value.
\<close>

definition child_path :: "string \<Rightarrow> string \<Rightarrow> string" where
  "child_path strPath szSubKey = (if strPath = [] then szSubKey else strPath @ [backslash] @ szSubKey)"

fun key_entries :: "regkey \<Rightarrow> string \<Rightarrow> (string \<times> DWORD \<times> byte list) list"
and sub_entries :: "(string \<times> regkey) list \<Rightarrow> string \<Rightarrow> (string \<times> DWORD \<times> byte list) list" where
  "key_entries (RegKey vals subs) strPath =
     map (\<lambda>(n, ty, d). (strPath @ ''/'' @ n, ty, d)) vals @ sub_entries subs strPath"
| "sub_entries [] strPath = []"
| "sub_entries ((szSubKey, sub) # rest) strPath =
     key_entries sub (child_path strPath szSubKey) @ sub_entries rest strPath"

definition store_entries :: "sys \<Rightarrow> (string \<times> DWORD \<times> byte list) list" where
  "store_entries s =
     (case lookup_key (hkcu s) (split_path (m_registryRoot s)) of
        None \<Rightarrow> []
      | Some k \<Rightarrow> key_entries k [])"

definition eligible :: "OptionsMap \<Rightarrow> string \<times> DWORD \<times> byte list \<Rightarrow> bool" where
  "eligible om e \<longleftrightarrow> map_of om (fst e) = None \<and> (fst (snd e) = REG_DWORD \<or> fst (snd e) = REG_SZ)"

definition tag_of :: "DWORD \<Rightarrow> string" where
  "tag_of ty = (if ty = REG_DWORD then ''int'' else ''string'')"

definition entry_text :: "(string \<Rightarrow> string) \<Rightarrow> DWORD \<Rightarrow> byte list \<Rightarrow> string" where
  "entry_text EscapeValue ty d =
     (if ty = REG_DWORD then to_str (sint (bytes_dword d)) else EscapeValue (tcs_read d))"

text \<open>
  The records (name, text, type tag) an export writes, computed along the walk with the
  data buffer as the loop has it.
\<close>

definition export_record ::
  "(string \<Rightarrow> string) \<Rightarrow> OptionsMap \<Rightarrow> string \<Rightarrow> DWORD \<Rightarrow> byte list \<Rightarrow> (string \<times> string \<times> string) list" where
  "export_record EscapeValue optionsMap strName dwType data1 =
     (if map_of optionsMap strName = None then
        (if dwType = REG_DWORD then [(strName, to_str (sint (bytes_dword data1)), ''int'')]
         else if dwType = REG_SZ then [(strName, EscapeValue (tcs_read data1), ''string'')]
         else [])
      else [])"

fun value_records ::
  "(string \<Rightarrow> string) \<Rightarrow> string \<Rightarrow> OptionsMap \<Rightarrow> (string \<times> DWORD \<times> byte list) list \<Rightarrow> byte list
     \<Rightarrow> (string \<times> string \<times> string) list" where
  "value_records EscapeValue strPath optionsMap [] data = []"
| "value_records EscapeValue strPath optionsMap (v # vs) data =
     (case enum_value v data of
        (result, szValueName, dwType, data1) \<Rightarrow>
          if result = ERROR_SUCCESS then
            export_record EscapeValue optionsMap (strPath @ ''/'' @ szValueName) dwType data1
            @ value_records EscapeValue strPath optionsMap vs data1
          else [])"

fun key_records ::
  "(string \<Rightarrow> string) \<Rightarrow> regkey \<Rightarrow> string \<Rightarrow> OptionsMap \<Rightarrow> (string \<times> string \<times> string) list"
and sub_records ::
  "(string \<Rightarrow> string) \<Rightarrow> (string \<times> regkey) list \<Rightarrow> string \<Rightarrow> OptionsMap \<Rightarrow> (string \<times> string \<times> string) list"
where
  "key_records EscapeValue (RegKey vals subs) strPath optionsMap =
     value_records EscapeValue strPath optionsMap vals (replicate MAX_PATH 0)
     @ sub_records EscapeValue subs strPath optionsMap"
| "sub_records EscapeValue [] strPath optionsMap = []"
| "sub_records EscapeValue ((szSubKey, sub) # rest) strPath optionsMap =
     key_records EscapeValue sub (child_path strPath szSubKey) optionsMap
     @ sub_records EscapeValue rest strPath optionsMap"

text \<open>
  A file \<open>ini'\<close> is the file \<open>ini\<close> after the records have been written, in their order,
  to the section of the values and the section of the type tags.
\<close>

definition writes :: "(string \<times> string \<times> string) list \<Rightarrow> inifile \<Rightarrow> inifile \<Rightarrow> bool" where
  "writes recs ini ini' \<longleftrightarrow>
     map_of (ini' ''WinMerge'') = map_of (ini ''WinMerge'') ++ map_of (rev (map (\<lambda>(n, t, g). (n, t)) recs))
   \<and> map_of (ini' ''WinMerge.TypeInfo'')
       = map_of (ini ''WinMerge.TypeInfo'') ++ map_of (rev (map (\<lambda>(n, t, g). (n, g)) recs))
   \<and> (\<forall>sec. sec \<noteq> ''WinMerge'' \<and> sec \<noteq> ''WinMerge.TypeInfo'' \<longrightarrow> ini' sec = ini sec)
   \<and> (distinct (map fst (ini ''WinMerge'')) \<longrightarrow> distinct (map fst (ini' ''WinMerge'')))
   \<and> (distinct (map fst (ini ''WinMerge.TypeInfo'')) \<longrightarrow> distinct (map fst (ini' ''WinMerge.TypeInfo'')))"

text \<open>
  A value as \<^verbatim>\<open>SaveValueToReg\<close> writes it: four bytes under \<^verbatim>\<open>REG_DWORD\<close>; under
  \<^verbatim>\<open>REG_SZ\<close> a string with its terminator, and no other zero unit, of a size that a
  \<^verbatim>\<open>DWORD\<close> holds.
\<close>

definition wf_entry :: "string \<times> DWORD \<times> byte list \<Rightarrow> bool" where
  "wf_entry e \<longleftrightarrow>
     (if fst (snd e) = REG_DWORD then length (snd (snd e)) = 4
      else if fst (snd e) = REG_SZ then
        snd (snd e) \<noteq> [] \<and> last (snd (snd e)) = 0 \<and> 0 \<notin> set (butlast (snd (snd e)))
        \<and> length (snd (snd e)) < 2 ^ 32
      else True)"

text \<open>
  A record of the export agrees with a value of the store: the name, the type tag,
  and, for a value as \<^verbatim>\<open>SaveValueToReg\<close> writes it, the text.
\<close>

definition rec_ok :: "(string \<Rightarrow> string) \<Rightarrow> string \<times> DWORD \<times> byte list \<Rightarrow> string \<times> string \<times> string \<Rightarrow> bool" where
  "rec_ok EscapeValue e r \<longleftrightarrow>
     fst r = fst e \<and> snd (snd r) = tag_of (fst (snd e))
   \<and> (wf_entry e \<longrightarrow> fst (snd r) = entry_text EscapeValue (fst (snd e)) (snd (snd e)))"


text \<open>
  A handler whose hive holds, beside the width, a debug flag and a title that are not
  options, and a binary value that another program has written; the option table with
  the width; an empty file.
\<close>

definition sys_export :: sys where
  "sys_export =
     (let s = apply_write (apply_write sys_int ''Settings/DebugFlag'' (VInt 1)) ''Window/Title''
                (VString ''abc'')
      in s\<lparr>hkcu := modify_key (set_value ''Placement'' (3, [1, 2])) (hkcu s)
                       (split_path (m_registryRoot s @ ''Window''))\<rparr>)"

definition om_width :: OptionsMap where
  "om_width = [(''Settings/Width'', VInt 250)]"

definition ini0 :: inifile where
  "ini0 = (\<lambda>section. [])"

text \<open>The file that the export of that handler, with that option table, makes of the empty file.\<close>

definition ini_exported :: inifile where
  "ini_exported = ini0(''WinMerge'' := [(''Settings/DebugFlag'', ''1''), (''Window/Title'', ''abc'')],
     ''WinMerge.TypeInfo'' := [(''Settings/DebugFlag'', ''int''), (''Window/Title'', ''string'')])"



section \<open>The caller and the writer thread, interleaved\<close>

text \<open>
  Runs of the caller and the writer thread, action by action: the caller begins a
  \<^verbatim>\<open>WriteAsync\<close> (when it is in no call), the caller makes its next action, or the writer
  thread makes a step.
\<close>

datatype action = A_Call string VariantValue | A_Caller | A_Worker

fun interleave :: "caller_pc \<times> sys \<Rightarrow> action list \<Rightarrow> caller_pc \<times> sys" where
  "interleave c [] = c"
| "interleave c (A_Call name value # as) =
     interleave (if fst c = C_Idle then WriteAsync_begin (snd c) name value else c) as"
| "interleave c (A_Caller # as) = interleave (caller_step c) as"
| "interleave c (A_Worker # as) = interleave (fst c, worker_step (snd c)) as"

text \<open>
  The write that the caller has counted and not yet posted, or not yet counted off after
  a failed post; and the count agreeing with the writes in flight, that one included.
\<close>

fun caller_pending :: "caller_pc \<Rightarrow> nat" where
  "caller_pending C_Idle = 0"
| "caller_pending (C_Post name value) = 1"
| "caller_pending C_Decrement = 1"

definition count_inv :: "caller_pc \<times> sys \<Rightarrow> bool" where
  "count_inv c \<longleftrightarrow>
     unat (m_dwQueueCount (snd c)) = in_flight (snd c) + caller_pending (fst c)
     \<and> length (msg_queue (snd c)) \<le> msg_limit (snd c)
     \<and> msg_limit (snd c) + 2 < 2 ^ 32"

section \<open>The writes that a flush waits for\<close>

text \<open>
  The writes the writer thread has still to apply, in their order: the one it has taken
  and not applied, and those of the messages in its queue. The state once all of them
  have been applied and counted off.
\<close>

fun msg_writes :: "MSG list \<Rightarrow> (string \<times> VariantValue) list" where
  "msg_writes [] = []"
| "msg_writes (WM_USER name value # q) = (name, value) # msg_writes q"
| "msg_writes (WM_QUIT # q) = msg_writes q"

definition pending_writes :: "sys \<Rightarrow> (string \<times> VariantValue) list" where
  "pending_writes s =
     (case worker s of W_Apply name value \<Rightarrow> [(name, value)] | W_GetMessage \<Rightarrow> []
        | W_Decrement \<Rightarrow> [] | W_Exited \<Rightarrow> [])
     @ msg_writes (msg_queue s)"

definition flushed :: "sys \<Rightarrow> sys" where
  "flushed s =
     (fold (\<lambda>w s'. apply_write s' (fst w) (snd w)) (pending_writes s) s)
       \<lparr>m_dwQueueCount := 0, msg_queue := [], worker := W_GetMessage\<rparr>"

text \<open>
  The part of \<^verbatim>\<open>Remove\<close> that runs under the critical section, after the wait: the key
  is opened, the value or the subtree is deleted, the key is closed.
\<close>

definition Remove_locked :: "sys \<Rightarrow> string \<Rightarrow> sys" where
  "Remove_locked s1 name =
     (let (strPath, strValueName) = SplitName name;
          (hKey, s2) = OpenKey s1 strPath True;
          s3 = (if strValueName = [] then snd (RegDeleteTree s2 hKey)
                else snd (RegDeleteValue s2 hKey strValueName))
      in CloseKey s3 hKey strPath)"

text \<open>
  A handler with a width and a height in its hive, and one write to another name
  pending.
\<close>

definition sys_two :: sys where
  "sys_two = apply_write sys_int ''Settings/Height'' (VInt 2)"

definition sys_pending :: sys where
  "sys_pending = WriteAsync sys_two ''Other/Y'' (VInt 5)"

text \<open>
  The places of the hive that \<^verbatim>\<open>Remove\<close> of a name empties: the one value, or, when the
  name ends with the separator, the key of the path with everything below it.
\<close>

definition removed_by :: "string \<Rightarrow> string \<Rightarrow> string list \<Rightarrow> string \<Rightarrow> bool" where
  "removed_by root name q n \<longleftrightarrow>
     (if snd (SplitName name) = [] then prefix (split_path (root @ fst (SplitName name))) q
      else q = split_path (root @ fst (SplitName name)) \<and> n = snd (SplitName name))"

section \<open>The handle cached for the key of a name\<close>

text \<open>
  The handle cached for the key path of a name, if there is one, is open on the key
  that the path names; or it is stale: it is open on no key (the key it was opened on has
  been deleted, or the handle has been closed).
\<close>

definition key_handle_ok :: "sys \<Rightarrow> string \<Rightarrow> bool" where
  "key_handle_ok s name \<longleftrightarrow>
     (case map_of (m_hKeys s) (fst (SplitName name)) of
        None \<Rightarrow> True
      | Some h \<Rightarrow> handle_path s h = Inr (split_path (m_registryRoot s @ fst (SplitName name))))"

definition key_handle_stale :: "sys \<Rightarrow> string \<Rightarrow> bool" where
  "key_handle_stale s name \<longleftrightarrow>
     (case map_of (m_hKeys s) (fst (SplitName name)) of
        None \<Rightarrow> False
      | Some h \<Rightarrow> (case handle_path s h of Inl e \<Rightarrow> True | Inr p \<Rightarrow> False))"

section \<open>The root as the specification words it\<close>

text \<open>
  The specification's rule with one fixed namespace prefix: the path itself when it
  begins with the prefix, and the prefix put before the path otherwise.
\<close>

definition spec_root :: "string \<Rightarrow> string \<Rightarrow> string" where
  "spec_root pfx key = (if prefix pfx key then key else pfx @ key)"

section \<open>A handler with a stale handle\<close>

text \<open>
  A handler whose cache holds a stale handle: a value is written under the key
  \<^verbatim>\<open>A\\B\<close>, whose handle stays cached; \<^verbatim>\<open>Remove\<close> of the subtree of \<^verbatim>\<open>A\<close> deletes that key;
  the same value is then written through the path \<^verbatim>\<open>A\\B\\\<close>, which names the same key and
  is cached under its own text. The manager on that handler.
\<close>

definition name_ab :: string where
  "name_ab = ''A'' @ [backslash] @ ''B/x''"

definition name_ab2 :: string where
  "name_ab2 = ''A'' @ [backslash] @ ''B'' @ [backslash] @ ''/x''"

definition sys_stale :: sys where
  "sys_stale =
     (case Remove (apply_write sys0 name_ab (VInt 250)) ''A/'' of
        None \<Rightarrow> sys0
      | Some (r, s) \<Rightarrow> apply_write s name_ab2 (VInt 250))"

definition mgr_stale :: CRegOptionsMgr where
  "mgr_stale = mgr0\<lparr>m_pIOHandler := sys_stale\<rparr>"


section \<open>The value codec\<close>

lemma unat_tchar_byte: "unat (tchar_byte c) = of_char c"
proof -
  have "(of_char c :: nat) < 256" by (rule nat_of_char_less_256)
  then show ?thesis by (simp add: tchar_byte_def unat_of_nat)
qed

lemma byte_tchar_tchar_byte: "byte_tchar (tchar_byte c) = c"
  by (simp add: byte_tchar_def unat_tchar_byte)

lemma tchar_byte_eq_0: "tchar_byte c = 0 \<longleftrightarrow> c = CHR 0x00"
proof -
  have "tchar_byte c = 0 \<longleftrightarrow> unat (tchar_byte c) = 0"
    by (simp add: unat_eq_0)
  also have "\<dots> \<longleftrightarrow> (of_char c :: nat) = of_char (CHR 0x00)"
    by (simp add: unat_tchar_byte)
  also have "\<dots> \<longleftrightarrow> c = CHR 0x00"
    by (rule of_char_eq_iff)
  finally show ?thesis .
qed

lemma bytes_dword_bytes: "bytes_dword (dword_bytes d @ rest) = d"
proof (rule bit_word_eqI)
  fix n assume n: "n < LENGTH(32)"
  then consider "n < 8" | "8 \<le> n \<and> n < 16" | "16 \<le> n \<and> n < 24" | "24 \<le> n \<and> n < 32"
    by fastforce
  then show "bit (bytes_dword (dword_bytes d @ rest)) n = bit d n"
    by cases (auto simp: bytes_dword_def dword_bytes_def byte_at_def bit_simps)
qed

lemma tcs_read_c_str:
  assumes "CHR 0x00 \<notin> set str"
  shows "tcs_read (c_str str @ rest) = str"
proof -
  have "takeWhile (\<lambda>b. b \<noteq> 0) (map tchar_byte str @ 0 # rest)
          = map tchar_byte str @ takeWhile (\<lambda>b. b \<noteq> 0) (0 # rest)"
    by (rule takeWhile_append2) (use assms in \<open>auto simp: tchar_byte_eq_0\<close>)
  then show ?thesis
    by (simp add: tcs_read_def c_str_def byte_tchar_tchar_byte comp_def)
qed

section \<open>The registry calls on a live handle\<close>

lemma lookup_modify_same:
  "lookup_key k p = Some x \<Longrightarrow> lookup_key (modify_key f k p) p = Some (f x)"
  by (induction p arbitrary: k) (auto split: option.splits simp: update_conv')

lemma lookup_create_same: "\<exists>x. lookup_key (create_key k p) p = Some x"
  by (induction p arbitrary: k) (auto split: option.splits simp: update_conv')

lemma handle_path_live: "handle_path s h = Inr p \<Longrightarrow> \<exists>k. lookup_key (hkcu s) p = Some k"
  by (auto simp: handle_path_def split: if_splits option.splits hentry.splits)

lemma RegSetValueEx_live:
  "handle_path s h = Inr p \<Longrightarrow>
   RegSetValueEx s h n ty d cb =
     (ERROR_SUCCESS, s\<lparr>hkcu := modify_key (set_value n (ty, take (unat cb) d)) (hkcu s) p\<rparr>)"
  by (simp add: RegSetValueEx_def)

lemma key_value_set_same:
  "lookup_key (hkcu s) p = Some k \<Longrightarrow>
   key_value (s\<lparr>hkcu := modify_key (set_value n v) (hkcu s) p\<rparr>) p n = Some v"
  by (simp add: key_value_def lookup_modify_same set_value_def update_conv')

lemma OpenKey_hit: "map_of (m_hKeys s) strPath = Some h \<Longrightarrow> OpenKey s strPath b = (h, s)"
  by (simp add: OpenKey_def)

lemma OpenKey_miss_create:
  "map_of (m_hKeys s) strPath = None \<Longrightarrow>
   OpenKey s strPath True =
     (Suc (next_h s),
      s\<lparr>hkcu := create_key (hkcu s) (split_path (m_registryRoot s @ strPath)),
        n_open_calls := Suc (n_open_calls s),
        htab := (htab s)(Suc (next_h s) \<mapsto> HLive (split_path (m_registryRoot s @ strPath))),
        next_h := Suc (next_h s),
        m_hKeys := AList.update strPath (Suc (next_h s)) (m_hKeys s)\<rparr>)"
  by (simp add: OpenKey_def RegCreateKeyEx_def new_handle_def Let_def)

subsection \<open>The constructed example\<close>

lemma sys0_hKeys: "m_hKeys sys0 = []"
  by (simp add: sys0_def IOHandler_def SetRegRootKey_def RegCreateKeyEx_def new_handle_def
      RegCloseKey_def env0_def Let_def)

lemma sys0_root: "m_registryRoot sys0 = ''Software'' @ [backslash] @ winmerge_root"
  by (simp add: sys0_def IOHandler_def SetRegRootKey_def RegCreateKeyEx_def new_handle_def
      RegCloseKey_def env0_def Let_def winmerge_root_def)

lemma split_settings:
  "split_path (m_registryRoot sys0 @ ''Settings'')
     = [''Software'', ''Thingamahoochie'', ''WinMerge'', ''Settings'']"
  by (simp add: sys0_root winmerge_root_def split_path_def backslash_def)

lemma handle_settings:
  "handle_path (snd (OpenKey sys0 ''Settings'' True)) (fst (OpenKey sys0 ''Settings'' True))
     = Inr [''Software'', ''Thingamahoochie'', ''WinMerge'', ''Settings'']"
  using lookup_create_same[of "hkcu sys0" "[''Software'', ''Thingamahoochie'', ''WinMerge'', ''Settings'']"]
  by (auto simp add: OpenKey_miss_create sys0_hKeys handle_path_def nullptr_def split_settings)

section \<open>Encoding a string value (SaveValueToReg)\<close>

lemma cb_small:
  assumes "(n + 1) * sizeof_tchar < 2 ^ 32"
  shows "unat ((of_nat (n + 1) :: DWORD) * of_nat sizeof_tchar) = n + 1"
proof -
  have "unat (of_nat (n + 1) :: DWORD) = (n + 1) mod 2 ^ 32"
    using unat_of_nat[where 'a=32, of "n + 1"] by simp
  then have "unat (of_nat (n + 1) :: DWORD) = n + 1"
    using assms by (simp add: sizeof_tchar_def)
  then show ?thesis
    by (simp only: sizeof_tchar_def of_nat_1 mult_1_right)
qed

lemma SaveValueToReg_huge:
  assumes "handle_path s hKey = Inr p" and "length strVal = 4294967295"
  shows "key_value (snd (SaveValueToReg s hKey n (VString strVal))) p n = Some (REG_SZ, [])"
proof -
  obtain k where k: "lookup_key (hkcu s) p = Some k"
    using handle_path_live[OF assms(1)] by blast
  have ne: "strVal \<noteq> []" using assms(2) by auto
  have "unat ((of_nat (length strVal + 1) :: DWORD) * of_nat sizeof_tchar) = 0"
    using assms(2) by (simp add: sizeof_tchar_def)
  then have "take (unat ((of_nat (length strVal + 1) :: DWORD) * of_nat sizeof_tchar)) (c_str strVal) = []"
    by simp
  with ne show ?thesis
    by (simp add: SaveValueToReg_def RegSetValueEx_live[OF assms(1)] key_value_set_same[OF k]
        del: of_nat_add of_nat_Suc)
qed

text \<open>
  C5, as stated, fails: for a string of \<open>2^32 - 1\<close> code units the byte count
  \<^verbatim>\<open>(DWORD)(strVal.length() + 1) * sizeof(tchar_t)\<close> wraps around to zero, and the value
  written to the store is zero bytes long.
\<close>

theorem SaveValueToReg_string_counterexample:
  "key_value (snd (SaveValueToReg (snd (OpenKey sys0 ''Settings'' True))
          (fst (OpenKey sys0 ''Settings'' True)) ''Name''
          (VString (replicate 4294967295 (CHR ''a'')))))
        [''Software'', ''Thingamahoochie'', ''WinMerge'', ''Settings''] ''Name'' = Some (REG_SZ, [])"
  by (rule SaveValueToReg_huge[OF handle_settings]) simp

text \<open>
  C5, amended: for every string whose byte count with the terminator,
  \<open>(length + 1) * sizeof(tchar_t)\<close>, is below \<open>2^32\<close>, \<^verbatim>\<open>SaveValueToReg\<close> on an open key
  returns Ok and stores, tagged \<^verbatim>\<open>REG_SZ\<close>, the code units of the string followed by one
  terminator; the empty string is stored as the single terminator, and the data written
  is never empty (its length is the length of the string plus one).
\<close>

theorem SaveValueToReg_string:
  assumes "handle_path s hKey = Inr p" and "(length strVal + 1) * sizeof_tchar < 2 ^ 32"
  shows "fst (SaveValueToReg s hKey n (VString strVal)) = OPT_OK
       \<and> key_value (snd (SaveValueToReg s hKey n (VString strVal))) p n = Some (REG_SZ, c_str strVal)
       \<and> c_str strVal = map tchar_byte strVal @ [0]
       \<and> c_str [] = [0]
       \<and> length (c_str strVal) = length strVal + 1"
proof -
  obtain k where k: "lookup_key (hkcu s) p = Some k"
    using handle_path_live[OF assms(1)] by blast
  have len: "length (c_str strVal) = length strVal + 1"
    by (simp add: c_str_def)
  show ?thesis
  proof (cases "strVal = []")
    case True
    then show ?thesis
      by (simp add: SaveValueToReg_def RegSetValueEx_live[OF assms(1)] key_value_set_same[OF k]
          c_str_def sizeof_tchar_def)
  next
    case False
    have "take (unat ((of_nat (length strVal + 1) :: DWORD) * of_nat sizeof_tchar)) (c_str strVal)
          = c_str strVal"
      using cb_small[OF assms(2)] len by simp
    with False show ?thesis
      by (simp add: SaveValueToReg_def RegSetValueEx_live[OF assms(1)] key_value_set_same[OF k]
          del: of_nat_add of_nat_Suc) (simp add: c_str_def)
  qed
qed

theorem SaveValueToReg_string_witness:
  "fst (SaveValueToReg (snd (OpenKey sys0 ''Settings'' True)) (fst (OpenKey sys0 ''Settings'' True))
          ''Name'' (VString [])) = OPT_OK
   \<and> key_value (snd (SaveValueToReg (snd (OpenKey sys0 ''Settings'' True))
          (fst (OpenKey sys0 ''Settings'' True)) ''Name'' (VString [])))
        [''Software'', ''Thingamahoochie'', ''WinMerge'', ''Settings''] ''Name'' = Some (REG_SZ, [0])"
  using SaveValueToReg_string[OF handle_settings, of "[]" "''Name''"]
  by (simp add: sizeof_tchar_def)

section \<open>What the registry calls leave alone\<close>

lemma same_control_refl [simp]: "same_control s s"
  by (simp add: same_control_def)

lemma same_control_trans: "same_control s s1 \<Longrightarrow> same_control s1 s2 \<Longrightarrow> same_control s s2"
  by (simp add: same_control_def)

lemma sc_RegCreateKeyEx: "same_control s (snd (snd (RegCreateKeyEx s p)))"
  by (simp add: RegCreateKeyEx_def new_handle_def Let_def same_control_def)

lemma sc_RegOpenKeyEx: "same_control s (snd (snd (RegOpenKeyEx s p)))"
  by (simp add: RegOpenKeyEx_def new_handle_def Let_def same_control_def)

lemma sc_RegCloseKey: "same_control s (RegCloseKey s h)"
  by (simp add: RegCloseKey_def same_control_def)

lemma sc_RegSetValueEx: "same_control s (snd (RegSetValueEx s h n ty d cb))"
  by (simp add: RegSetValueEx_def same_control_def split: sum.splits)

lemma sc_RegDeleteValue: "same_control s (snd (RegDeleteValue s h n))"
  by (simp add: RegDeleteValue_def same_control_def split: sum.splits)

lemma sc_RegDeleteTree: "same_control s (snd (RegDeleteTree s h))"
  by (simp add: RegDeleteTree_def same_control_def split: sum.splits)

lemma sc_OpenKey: "same_control s (snd (OpenKey s p b))"
proof (cases "map_of (m_hKeys s) p")
  case None
  have "same_control s (snd (snd (if b then RegCreateKeyEx s (m_registryRoot s @ p)
                                  else RegOpenKeyEx s (m_registryRoot s @ p))))"
    by (simp add: sc_RegCreateKeyEx sc_RegOpenKeyEx)
  with None show ?thesis
    by (simp add: OpenKey_def Let_def case_prod_beta same_control_def)
next
  case (Some h)
  then show ?thesis by (simp add: OpenKey_def)
qed

lemma sc_CloseKey: "same_control s (CloseKey s h p)"
  by (simp add: CloseKey_def RegCloseKey_def Let_def same_control_def)

lemma sc_SaveValueToReg: "same_control s (snd (SaveValueToReg s h n v))"
  using sc_RegSetValueEx[of s h n]
  by (cases v) (simp_all add: SaveValueToReg_def Let_def case_prod_beta)

lemma sc_Read: "same_control s (snd (Read s name buf))"
  using sc_OpenKey[of s "fst (SplitName name)" False]
    sc_CloseKey[of "snd (OpenKey s (fst (SplitName name)) False)"]
  by (simp add: Read_def Let_def case_prod_beta) (blast intro: same_control_trans)

subsection \<open>The writer thread and the count of pending writes\<close>


lemma sc_apply_write: "same_control s (apply_write s name value)"
  by (simp add: apply_write_def Let_def case_prod_beta)
    (blast intro: same_control_trans sc_OpenKey sc_SaveValueToReg sc_CloseKey)

lemma worker_step_Apply:
  "worker s = W_Apply name value \<Longrightarrow> worker_step s = (apply_write s name value)\<lparr>worker := W_Decrement\<rparr>"
  by (simp add: worker_step_def apply_write_def Let_def case_prod_beta)

lemma in_flight_cong:
  "msg_queue s' = msg_queue s \<Longrightarrow> worker s' = worker s \<Longrightarrow> in_flight s' = in_flight s"
  by (simp add: in_flight_def)

lemma count_zero_iff: "queue_inv s \<Longrightarrow> m_dwQueueCount s = 0 \<longleftrightarrow> in_flight s = 0"
  by (metis queue_inv_def unat_eq_0)

lemma in_flight_bound: "queue_inv s \<Longrightarrow> in_flight s \<le> msg_limit s + 1"
  unfolding queue_inv_def in_flight_def
  by (cases "worker s") (auto intro: le_trans[OF length_filter_le])

lemma unat_inc: "unat (c :: DWORD) + 1 < 2 ^ 32 \<Longrightarrow> unat (c + 1) = unat c + 1"
  by (simp add: unat_word_ariths)

lemma unat_dec: "0 < unat (c :: DWORD) \<Longrightarrow> unat (c - 1) = unat c - 1"
  by (metis unat_minus_one unat_eq_0 less_numeral_extra(3))

lemma WriteAsync_fail:
  "PostThreadMessage (s\<lparr>m_dwQueueCount := m_dwQueueCount s + 1\<rparr>) (WM_USER name value) = None \<Longrightarrow>
   WriteAsync s name value = s"
  by (simp add: WriteAsync_def Let_def)

lemma WriteAsync_ok:
  "worker s \<noteq> W_Exited \<Longrightarrow> length (msg_queue s) < msg_limit s \<Longrightarrow>
   WriteAsync s name value =
     s\<lparr>m_dwQueueCount := m_dwQueueCount s + 1, msg_queue := msg_queue s @ [WM_USER name value]\<rparr>"
  by (simp add: WriteAsync_def PostThreadMessage_def Let_def)

lemma WriteAsync_cases:
  "WriteAsync s name value =
     (if worker s = W_Exited \<or> msg_limit s \<le> length (msg_queue s) then s
      else s\<lparr>m_dwQueueCount := m_dwQueueCount s + 1, msg_queue := msg_queue s @ [WM_USER name value]\<rparr>)"
  by (simp add: WriteAsync_def PostThreadMessage_def Let_def)

lemma in_flight_le: "in_flight s \<le> length (msg_queue s) + 1"
  unfolding in_flight_def
  by (cases "worker s") (auto intro: le_trans[OF length_filter_le])

lemma queue_inv_WriteAsync:
  assumes inv: "queue_inv s"
  shows "queue_inv (WriteAsync s name value)"
proof (cases "worker s = W_Exited \<or> msg_limit s \<le> length (msg_queue s)")
  case True
  then show ?thesis using inv by (simp add: WriteAsync_cases)
next
  case False
  then have "unat (m_dwQueueCount s) + 1 < 2 ^ 32"
    using inv in_flight_le[of s] by (simp add: queue_inv_def)
  then have "unat (m_dwQueueCount s + 1) = unat (m_dwQueueCount s) + 1"
    by (rule unat_inc)
  with False inv show ?thesis
    by (simp add: WriteAsync_cases queue_inv_def in_flight_def)
qed

lemma worker_alive_WriteAsync: "worker_alive s \<Longrightarrow> worker_alive (WriteAsync s name value)"
  by (simp add: WriteAsync_cases worker_alive_def)

lemma queue_inv_worker_step:
  assumes inv: "queue_inv s"
  shows "queue_inv (worker_step s)"
proof (cases "worker s")
  case W_GetMessage
  with inv show ?thesis
    by (auto simp: worker_step_def queue_inv_def in_flight_def split: list.splits MSG.splits)
next
  case (W_Apply n v)
  have sc: "same_control s (apply_write s n v)"
    by (rule sc_apply_write)
  with inv W_Apply show ?thesis
    by (simp add: worker_step_Apply queue_inv_def in_flight_def same_control_def)
next
  case W_Decrement
  then have "0 < unat (m_dwQueueCount s)"
    using inv by (simp add: queue_inv_def in_flight_def)
  then have "unat (m_dwQueueCount s - 1) = unat (m_dwQueueCount s) - 1"
    by (rule unat_dec)
  with inv W_Decrement show ?thesis
    by (simp add: worker_step_def queue_inv_def in_flight_def)
next
  case W_Exited
  with inv show ?thesis by (simp add: worker_step_def)
qed

lemma worker_alive_worker_step:
  assumes "worker_alive s"
  shows "worker_alive (worker_step s)"
proof (cases "worker s")
  case W_GetMessage
  with assms show ?thesis
    by (auto simp: worker_step_def worker_alive_def split: list.splits MSG.splits)
next
  case (W_Apply n v)
  have sc: "same_control s (apply_write s n v)"
    by (rule sc_apply_write)
  with assms W_Apply show ?thesis
    by (simp add: worker_step_Apply worker_alive_def same_control_def)
next
  case W_Decrement
  with assms show ?thesis by (simp add: worker_step_def worker_alive_def)
next
  case W_Exited
  with assms show ?thesis by (simp add: worker_step_def)
qed

lemma queue_inv_run: "queue_inv s \<Longrightarrow> queue_inv (run s evs)"
  by (induction s evs rule: run.induct) (simp_all add: queue_inv_WriteAsync queue_inv_worker_step)

subsection \<open>The wait loop returns\<close>


lemma work_left_step:
  assumes "queue_inv s" "worker_alive s" "m_dwQueueCount s \<noteq> 0"
  shows "work_left (worker_step s) < work_left s"
proof (cases "worker s")
  case W_GetMessage
  have "in_flight s \<noteq> 0" using assms count_zero_iff by blast
  with W_GetMessage have "msg_queue s \<noteq> []" by (auto simp: in_flight_def)
  with W_GetMessage assms(2) show ?thesis
    by (auto simp: worker_step_def work_left_def worker_alive_def split: list.splits MSG.splits)
next
  case (W_Apply n v)
  have sc: "same_control s (apply_write s n v)"
    by (rule sc_apply_write)
  with W_Apply show ?thesis
    by (simp add: worker_step_Apply work_left_def same_control_def)
next
  case W_Decrement
  then show ?thesis by (simp add: worker_step_def work_left_def)
next
  case W_Exited
  with assms(2) show ?thesis by (simp add: worker_alive_def)
qed

lemma sc_worker_step_root:
  "m_registryRoot (worker_step s) = m_registryRoot s \<and> m_bCloseHandle (worker_step s) = m_bCloseHandle s
   \<and> msg_limit (worker_step s) = msg_limit s"
proof (cases "worker s")
  case (W_Apply n v)
  have sc: "same_control s (apply_write s n v)"
    by (rule sc_apply_write)
  with W_Apply show ?thesis
    by (simp add: worker_step_Apply same_control_def)
qed (auto simp: worker_step_def split: list.splits MSG.splits)

lemma wait_queue_returns:
  assumes "queue_inv s" "worker_alive s"
  shows "\<exists>s'. wait_queue s = Some s' \<and> m_dwQueueCount s' = 0 \<and> queue_inv s' \<and> worker_alive s'
            \<and> m_registryRoot s' = m_registryRoot s \<and> m_bCloseHandle s' = m_bCloseHandle s"
  using assms
proof (induction "work_left s" arbitrary: s rule: less_induct)
  case less
  show ?case
  proof (cases "m_dwQueueCount s = 0")
    case True
    with less.prems show ?thesis
      by (subst wait_queue.simps) simp
  next
    case False
    have lt: "work_left (worker_step s) < work_left s"
      using less.prems False by (rule work_left_step)
    have "\<exists>s'. wait_queue (worker_step s) = Some s' \<and> m_dwQueueCount s' = 0 \<and> queue_inv s'
            \<and> worker_alive s' \<and> m_registryRoot s' = m_registryRoot (worker_step s)
            \<and> m_bCloseHandle s' = m_bCloseHandle (worker_step s)"
      using less.hyps[OF lt] less.prems queue_inv_worker_step worker_alive_worker_step by blast
    with False show ?thesis
      by (subst wait_queue.simps) (simp add: sc_worker_step_root)
  qed
qed

lemma idle_when_zero:
  assumes "queue_inv s" "worker_alive s" "m_dwQueueCount s = 0"
  shows "msg_queue s = [] \<and> worker s = W_GetMessage"
proof -
  have z: "in_flight s = 0" using assms count_zero_iff by blast
  then have w: "worker s = W_GetMessage"
    using assms(2) by (cases "worker s") (auto simp: in_flight_def worker_alive_def)
  have "filter is_write (msg_queue s) = []" using z by (simp add: in_flight_def)
  moreover have "\<forall>m \<in> set (msg_queue s). is_write m"
  proof
    fix m assume m: "m \<in> set (msg_queue s)"
    show "is_write m"
    proof (cases m)
      case WM_QUIT
      with m assms(2) show ?thesis by (simp add: worker_alive_def)
    qed simp
  qed
  ultimately have "msg_queue s = []"
    by (metis filter_True)
  with w show ?thesis by simp
qed


lemma queue_inv_IOHandler:
  assumes "msg_limit env + 1 < 2 ^ 32"
  shows "queue_inv (IOHandler env path) \<and> worker_alive (IOHandler env path)
         \<and> \<not> m_bCloseHandle (IOHandler env path)"
  using assms
  by (simp add: IOHandler_def SetRegRootKey_def RegCreateKeyEx_def new_handle_def RegCloseKey_def
      Let_def queue_inv_def worker_alive_def in_flight_def)

lemma worker_step_Get:
  "worker s = W_GetMessage \<Longrightarrow> msg_queue s = WM_USER name value # q \<Longrightarrow>
   worker_step s = s\<lparr>msg_queue := q, worker := W_Apply name value\<rparr>"
  by (simp add: worker_step_def)

lemma worker_step_Decrement:
  "worker s = W_Decrement \<Longrightarrow>
   worker_step s = s\<lparr>m_dwQueueCount := m_dwQueueCount s - 1, worker := W_GetMessage\<rparr>"
  by (simp add: worker_step_def)

lemma worker_three_steps:
  assumes "worker s = W_GetMessage" "msg_queue s = WM_USER name value # q"
  shows "m_dwQueueCount (worker_step s) = m_dwQueueCount s"
    and "worker_step (worker_step s)
           = (apply_write (s\<lparr>msg_queue := q, worker := W_Apply name value\<rparr>) name value)\<lparr>worker := W_Decrement\<rparr>"
    and "m_dwQueueCount (worker_step (worker_step s)) = m_dwQueueCount s"
    and "m_dwQueueCount (worker_step (worker_step (worker_step s))) = m_dwQueueCount s - 1"
    and "worker (worker_step (worker_step (worker_step s))) = W_GetMessage"
proof -
  let ?s1 = "s\<lparr>msg_queue := q, worker := W_Apply name value\<rparr>"
  have s1: "worker_step s = ?s1" using assms by (rule worker_step_Get)
  have s2: "worker_step ?s1 = (apply_write ?s1 name value)\<lparr>worker := W_Decrement\<rparr>"
    by (rule worker_step_Apply) simp
  have sc: "same_control ?s1 (apply_write ?s1 name value)" by (rule sc_apply_write)
  show "m_dwQueueCount (worker_step s) = m_dwQueueCount s" by (simp add: s1)
  show "worker_step (worker_step s) = (apply_write ?s1 name value)\<lparr>worker := W_Decrement\<rparr>"
    by (simp only: s1 s2)
  show "m_dwQueueCount (worker_step (worker_step s)) = m_dwQueueCount s"
    using sc by (simp add: s1 s2 same_control_def)
  show "m_dwQueueCount (worker_step (worker_step (worker_step s))) = m_dwQueueCount s - 1"
    using sc by (simp add: s1 s2 worker_step_Decrement same_control_def)
  show "worker (worker_step (worker_step (worker_step s))) = W_GetMessage"
    by (simp add: s1 s2 worker_step_Decrement)
qed


lemma sys0_control:
  "m_dwQueueCount sys0 = 0 \<and> msg_queue sys0 = [] \<and> worker sys0 = W_GetMessage
   \<and> msg_limit sys0 = 10000 \<and> \<not> m_bCloseHandle sys0"
  by (simp add: sys0_def IOHandler_def SetRegRootKey_def RegCreateKeyEx_def new_handle_def
      RegCloseKey_def env0_def Let_def)

lemma sys0_inv: "queue_inv sys0 \<and> worker_alive sys0 \<and> \<not> m_bCloseHandle sys0"
  unfolding sys0_def by (rule queue_inv_IOHandler) (simp add: env0_def)


subsection \<open>The caller's actions and the steps of the writer thread, interleaved\<close>

lemma caller_step_Post_fail:
  "PostThreadMessage s1 (WM_USER name value) = None \<Longrightarrow>
   caller_step (C_Post name value, s1) = (C_Decrement, s1)"
  by (simp add: caller_step_def)

lemma caller_step_Post_ok:
  "PostThreadMessage s1 (WM_USER name value) = Some s2 \<Longrightarrow>
   caller_step (C_Post name value, s1) = (C_Idle, s2)"
  by (simp add: caller_step_def)

lemma caller_step_Decrement:
  "caller_step (C_Decrement, s1) = (C_Idle, s1\<lparr>m_dwQueueCount := m_dwQueueCount s1 - 1\<rparr>)"
  by (simp add: caller_step_def)

lemma caller_steps_WriteAsync:
  "caller_step (caller_step (WriteAsync_begin s name value)) = (C_Idle, WriteAsync s name value)"
  by (cases "PostThreadMessage (s\<lparr>m_dwQueueCount := m_dwQueueCount s + 1\<rparr>) (WM_USER name value)")
    (simp_all add: WriteAsync_begin_def WriteAsync_def caller_step_def Let_def)

lemma count_inv_idle: "count_inv (C_Idle, s) \<longleftrightarrow> queue_inv s \<and> msg_limit s + 2 < 2 ^ 32"
  by (auto simp: count_inv_def queue_inv_def)

lemma count_inv_zero:
  assumes "count_inv c"
  shows "(m_dwQueueCount (snd c) = 0) = (in_flight (snd c) = 0 \<and> fst c = C_Idle)"
proof -
  have "(m_dwQueueCount (snd c) = 0) = (unat (m_dwQueueCount (snd c)) = 0)"
    by (simp add: unat_eq_0)
  also have "\<dots> = (in_flight (snd c) = 0 \<and> caller_pending (fst c) = 0)"
    using assms by (simp add: count_inv_def)
  also have "\<dots> = (in_flight (snd c) = 0 \<and> fst c = C_Idle)"
    by (cases "fst c") simp_all
  finally show ?thesis .
qed

lemma count_inv_begin:
  assumes inv: "count_inv c" and idle: "fst c = C_Idle"
  shows "count_inv (WriteAsync_begin (snd c) name value)"
proof -
  have "unat (m_dwQueueCount (snd c)) + 1 < 2 ^ 32"
    using inv idle in_flight_le[of "snd c"] by (simp add: count_inv_def)
  then have "unat (m_dwQueueCount (snd c) + 1) = unat (m_dwQueueCount (snd c)) + 1"
    by (rule unat_inc)
  with inv idle show ?thesis
    by (simp add: WriteAsync_begin_def count_inv_def in_flight_def)
qed

lemma count_inv_caller_step:
  assumes inv: "count_inv c"
  shows "count_inv (caller_step c)"
proof (cases "fst c")
  case C_Idle
  with inv show ?thesis by (simp add: caller_step_def)
next
  case (C_Post n v)
  show ?thesis
  proof (cases "PostThreadMessage (snd c) (WM_USER n v)")
    case None
    with inv C_Post show ?thesis by (simp add: caller_step_def count_inv_def)
  next
    case (Some s2)
    then have s2: "s2 = (snd c)\<lparr>msg_queue := msg_queue (snd c) @ [WM_USER n v]\<rparr>"
      and room: "length (msg_queue (snd c)) < msg_limit (snd c)"
      by (auto simp: PostThreadMessage_def split: if_splits)
    with inv C_Post Some show ?thesis
      by (simp add: caller_step_def count_inv_def in_flight_def)
  qed
next
  case C_Decrement
  then have "0 < unat (m_dwQueueCount (snd c))"
    using inv by (simp add: count_inv_def)
  then have "unat (m_dwQueueCount (snd c) - 1) = unat (m_dwQueueCount (snd c)) - 1"
    by (rule unat_dec)
  with inv C_Decrement show ?thesis
    by (simp add: caller_step_def count_inv_def in_flight_def)
qed

lemma count_inv_worker_step:
  assumes inv: "count_inv (pc, s)"
  shows "count_inv (pc, worker_step s)"
proof (cases "worker s")
  case W_GetMessage
  with inv show ?thesis
    by (auto simp: worker_step_def count_inv_def in_flight_def split: list.splits MSG.splits)
next
  case (W_Apply n v)
  have sc: "same_control s (apply_write s n v)"
    by (rule sc_apply_write)
  with inv W_Apply show ?thesis
    by (simp add: worker_step_Apply count_inv_def in_flight_def same_control_def)
next
  case W_Decrement
  then have "0 < unat (m_dwQueueCount s)"
    using inv by (simp add: count_inv_def in_flight_def)
  then have "unat (m_dwQueueCount s - 1) = unat (m_dwQueueCount s) - 1"
    by (rule unat_dec)
  with inv W_Decrement show ?thesis
    by (simp add: worker_step_def count_inv_def in_flight_def)
next
  case W_Exited
  with inv show ?thesis by (simp add: worker_step_def)
qed

lemma count_inv_interleave: "count_inv c \<Longrightarrow> count_inv (interleave c as)"
proof (induction c as rule: interleave.induct)
  case (1 c)
  then show ?case by simp
next
  case (2 c name "value" as)
  then show ?case by (simp add: count_inv_begin)
next
  case (3 c as)
  then show ?case by (simp add: count_inv_caller_step)
next
  case (4 c as)
  have "count_inv (fst c, worker_step (snd c))"
    using 4(2) by (intro count_inv_worker_step) simp
  then show ?case using 4(1) by simp
qed

lemma sys0_count_inv: "count_inv (C_Idle, sys0)"
  using sys0_inv sys0_control by (simp add: count_inv_idle)

lemma interleave_sys0_begun:
  "interleave (C_Idle, sys0) [A_Call ''Settings/Width'' (VInt 250), A_Worker]
     = (C_Post ''Settings/Width'' (VInt 250), sys0\<lparr>m_dwQueueCount := 1\<rparr>)"
  using sys0_control by (simp add: WriteAsync_begin_def worker_step_def)

lemma interleave_sys0_posted:
  "interleave (C_Idle, sys0) [A_Call ''Settings/Width'' (VInt 250), A_Worker, A_Caller]
     = (C_Idle, sys0\<lparr>m_dwQueueCount := 1, msg_queue := [WM_USER ''Settings/Width'' (VInt 250)]\<rparr>)"
  using sys0_control
  by (simp add: WriteAsync_begin_def worker_step_def caller_step_def PostThreadMessage_def)

lemma interleave_sys0_counted:
  "m_dwQueueCount (snd (interleave (C_Idle, sys0)
      [A_Call ''Settings/Width'' (VInt 250), A_Worker, A_Caller, A_Worker, A_Worker, A_Worker])) = 0"
proof -
  let ?s = "sys0\<lparr>m_dwQueueCount := 1, msg_queue := [WM_USER ''Settings/Width'' (VInt 250)]\<rparr>"
  have "interleave (C_Idle, sys0)
      [A_Call ''Settings/Width'' (VInt 250), A_Worker, A_Caller, A_Worker, A_Worker, A_Worker]
    = (C_Idle, worker_step (worker_step (worker_step ?s)))"
    using sys0_control
    by (simp add: WriteAsync_begin_def worker_step_def caller_step_def PostThreadMessage_def)
  moreover have "m_dwQueueCount (worker_step (worker_step (worker_step ?s))) = m_dwQueueCount ?s - 1"
    using sys0_control by (intro worker_three_steps(4)) simp_all
  ultimately show ?thesis by simp
qed

text \<open>
  C3: \<^verbatim>\<open>WriteAsync\<close> begins with the increment of the count: after it the caller is
  before its post, the count is one higher and nothing has been posted. When the post
  fails the write is dropped and the next action of the caller decrements the count;
  the call leaves the state it found, and the caller is told nothing (\<^verbatim>\<open>WriteAsync\<close>
  returns no result). When the post succeeds the count is one higher and the write is
  the last message of the queue; the writer thread takes the message, applies it, and
  only then decrements the count, once. The writer thread may run between any two
  actions of the caller: in every state that the actions of the caller and the steps of
  the writer thread reach, in any order, from a state where the count agrees with the
  writes in flight, the count is zero if and only if no write is in flight, neither in
  the queue, nor with the writer thread, nor with the caller between its increment and
  its post or its decrement. The same holds of the runs in which each call is one step.
\<close>

theorem WriteAsync_count:
  "fst (WriteAsync_begin s name value) = C_Post name value
 \<and> m_dwQueueCount (snd (WriteAsync_begin s name value)) = m_dwQueueCount s + 1
 \<and> msg_queue (snd (WriteAsync_begin s name value)) = msg_queue s
 \<and> caller_step (caller_step (WriteAsync_begin s name value)) = (C_Idle, WriteAsync s name value)
 \<and> (PostThreadMessage s1 (WM_USER name value) = None
      \<longrightarrow> caller_step (C_Post name value, s1) = (C_Decrement, s1)
          \<and> caller_step (C_Decrement, s1) = (C_Idle, s1\<lparr>m_dwQueueCount := m_dwQueueCount s1 - 1\<rparr>))
 \<and> (PostThreadMessage (s\<lparr>m_dwQueueCount := m_dwQueueCount s + 1\<rparr>) (WM_USER name value) = None
      \<longrightarrow> WriteAsync s name value = s)
 \<and> (\<forall>s2. PostThreadMessage (s\<lparr>m_dwQueueCount := m_dwQueueCount s + 1\<rparr>) (WM_USER name value) = Some s2
      \<longrightarrow> caller_step (WriteAsync_begin s name value) = (C_Idle, s2)
          \<and> WriteAsync s name value = s2 \<and> m_dwQueueCount s2 = m_dwQueueCount s + 1
          \<and> msg_queue s2 = msg_queue s @ [WM_USER name value])
 \<and> (worker s = W_GetMessage \<and> msg_queue s = WM_USER name value # q
      \<longrightarrow> m_dwQueueCount (worker_step s) = m_dwQueueCount s
          \<and> worker_step (worker_step s)
              = (apply_write (s\<lparr>msg_queue := q, worker := W_Apply name value\<rparr>) name value)\<lparr>worker := W_Decrement\<rparr>
          \<and> m_dwQueueCount (worker_step (worker_step s)) = m_dwQueueCount s
          \<and> m_dwQueueCount (worker_step (worker_step (worker_step s))) = m_dwQueueCount s - 1)
 \<and> (count_inv c
      \<longrightarrow> (\<forall>as. count_inv (interleave c as)
                 \<and> (m_dwQueueCount (snd (interleave c as)) = 0)
                     = (in_flight (snd (interleave c as)) = 0 \<and> fst (interleave c as) = C_Idle)))
 \<and> (queue_inv s
      \<longrightarrow> (\<forall>evs. queue_inv (run s evs)
                 \<and> (m_dwQueueCount (run s evs) = 0) = (in_flight (run s evs) = 0)))"
proof (intro conjI impI allI)
  show "fst (WriteAsync_begin s name value) = C_Post name value"
    and "m_dwQueueCount (snd (WriteAsync_begin s name value)) = m_dwQueueCount s + 1"
    and "msg_queue (snd (WriteAsync_begin s name value)) = msg_queue s"
    by (simp_all add: WriteAsync_begin_def)
  show "caller_step (caller_step (WriteAsync_begin s name value)) = (C_Idle, WriteAsync s name value)"
    by (rule caller_steps_WriteAsync)
next
  assume "PostThreadMessage s1 (WM_USER name value) = None"
  then show "caller_step (C_Post name value, s1) = (C_Decrement, s1)"
    by (rule caller_step_Post_fail)
  show "caller_step (C_Decrement, s1) = (C_Idle, s1\<lparr>m_dwQueueCount := m_dwQueueCount s1 - 1\<rparr>)"
    by (rule caller_step_Decrement)
next
  assume "PostThreadMessage (s\<lparr>m_dwQueueCount := m_dwQueueCount s + 1\<rparr>) (WM_USER name value) = None"
  then show "WriteAsync s name value = s" by (rule WriteAsync_fail)
next
  fix s2
  assume a: "PostThreadMessage (s\<lparr>m_dwQueueCount := m_dwQueueCount s + 1\<rparr>) (WM_USER name value) = Some s2"
  then show "caller_step (WriteAsync_begin s name value) = (C_Idle, s2)"
    by (simp add: WriteAsync_begin_def caller_step_def)
  from a show "WriteAsync s name value = s2" by (simp add: WriteAsync_def Let_def)
  from a show "m_dwQueueCount s2 = m_dwQueueCount s + 1"
    by (auto simp: PostThreadMessage_def split: if_splits)
  from a show "msg_queue s2 = msg_queue s @ [WM_USER name value]"
    by (auto simp: PostThreadMessage_def split: if_splits)
next
  assume a: "worker s = W_GetMessage \<and> msg_queue s = WM_USER name value # q"
  then have w: "worker s = W_GetMessage" and m: "msg_queue s = WM_USER name value # q" by simp_all
  show "m_dwQueueCount (worker_step s) = m_dwQueueCount s"
    by (rule worker_three_steps(1)[OF w m])
  show "worker_step (worker_step s)
       = (apply_write (s\<lparr>msg_queue := q, worker := W_Apply name value\<rparr>) name value)\<lparr>worker := W_Decrement\<rparr>"
    by (rule worker_three_steps(2)[OF w m])
  show "m_dwQueueCount (worker_step (worker_step s)) = m_dwQueueCount s"
    by (rule worker_three_steps(3)[OF w m])
  show "m_dwQueueCount (worker_step (worker_step (worker_step s))) = m_dwQueueCount s - 1"
    by (rule worker_three_steps(4)[OF w m])
next
  fix as
  assume "count_inv c"
  then show i: "count_inv (interleave c as)" by (rule count_inv_interleave)
  show "(m_dwQueueCount (snd (interleave c as)) = 0)
          = (in_flight (snd (interleave c as)) = 0 \<and> fst (interleave c as) = C_Idle)"
    using i by (rule count_inv_zero)
next
  fix evs
  assume inv: "queue_inv s"
  then show "queue_inv (run s evs)" by (rule queue_inv_run)
  then show "(m_dwQueueCount (run s evs) = 0) = (in_flight (run s evs) = 0)"
    by (rule count_zero_iff)
qed


theorem WriteAsync_count_witness:
  "WriteAsync (sys0\<lparr>worker := W_Exited\<rparr>) ''Settings/Width'' (VInt 250) = sys0\<lparr>worker := W_Exited\<rparr>
 \<and> m_dwQueueCount (WriteAsync sys0 ''Settings/Width'' (VInt 250)) = 1
 \<and> msg_queue (WriteAsync sys0 ''Settings/Width'' (VInt 250)) = [WM_USER ''Settings/Width'' (VInt 250)]
 \<and> queue_inv sys0
 \<and> (m_dwQueueCount (run sys0 [EvWriteAsync ''Settings/Width'' (VInt 250), EvWorkerStep]) = 0)
    = (in_flight (run sys0 [EvWriteAsync ''Settings/Width'' (VInt 250), EvWorkerStep]) = 0)
 \<and> count_inv (C_Idle, sys0)
 \<and> interleave (C_Idle, sys0) [A_Call ''Settings/Width'' (VInt 250), A_Worker]
     = (C_Post ''Settings/Width'' (VInt 250), sys0\<lparr>m_dwQueueCount := 1\<rparr>)
 \<and> in_flight (snd (interleave (C_Idle, sys0)
      [A_Call ''Settings/Width'' (VInt 250), A_Worker, A_Caller, A_Worker, A_Worker, A_Worker])) = 0
 \<and> fst (interleave (C_Idle, sys0)
      [A_Call ''Settings/Width'' (VInt 250), A_Worker, A_Caller, A_Worker, A_Worker, A_Worker]) = C_Idle"
proof -
  note t1 = WriteAsync_count[of "sys0\<lparr>worker := W_Exited\<rparr>" "''Settings/Width''" "VInt 250" sys0 "[]"
      "(C_Idle, sys0)"]
  note t2 = WriteAsync_count[of sys0 "''Settings/Width''" "VInt 250" sys0 "[]" "(C_Idle, sys0)"]
  note r = t2[THEN conjunct2, THEN conjunct2, THEN conjunct2, THEN conjunct2, THEN conjunct2]
  have c1: "WriteAsync (sys0\<lparr>worker := W_Exited\<rparr>) ''Settings/Width'' (VInt 250) = sys0\<lparr>worker := W_Exited\<rparr>"
    using t1[THEN conjunct2, THEN conjunct2, THEN conjunct2, THEN conjunct2, THEN conjunct2, THEN conjunct1]
    by (simp add: PostThreadMessage_def)
  have c2: "m_dwQueueCount (WriteAsync sys0 ''Settings/Width'' (VInt 250)) = 1
     \<and> msg_queue (WriteAsync sys0 ''Settings/Width'' (VInt 250)) = [WM_USER ''Settings/Width'' (VInt 250)]"
    using r[THEN conjunct2, THEN conjunct1] by (simp add: PostThreadMessage_def sys0_control)
  have inv: "queue_inv sys0" using sys0_inv by simp
  have c4: "(m_dwQueueCount (run sys0 [EvWriteAsync ''Settings/Width'' (VInt 250), EvWorkerStep]) = 0)
    = (in_flight (run sys0 [EvWriteAsync ''Settings/Width'' (VInt 250), EvWorkerStep]) = 0)"
    using r[THEN conjunct2, THEN conjunct2, THEN conjunct2, THEN conjunct2] inv by blast
  have c5: "in_flight (snd (interleave (C_Idle, sys0)
      [A_Call ''Settings/Width'' (VInt 250), A_Worker, A_Caller, A_Worker, A_Worker, A_Worker])) = 0
    \<and> fst (interleave (C_Idle, sys0)
      [A_Call ''Settings/Width'' (VInt 250), A_Worker, A_Caller, A_Worker, A_Worker, A_Worker]) = C_Idle"
    using r[THEN conjunct2, THEN conjunct2, THEN conjunct2, THEN conjunct1] sys0_count_inv
      interleave_sys0_counted by blast
  from c1 c2 inv c4 sys0_count_inv interleave_sys0_begun c5 show ?thesis by blast
qed

section \<open>Decoding by the expected type (LoadValueFromBuf)\<close>

text \<open>
  C6: \<^verbatim>\<open>LoadValueFromBuf\<close> branches on the type of the value the caller expects. The four
  bytes of a word \<open>d\<close> stored under the tag \<^verbatim>\<open>REG_DWORD\<close> are set as the Int \<open>d\<close> when an
  Int is expected and as the Bool \<open>d \<noteq> 0\<close> when a Bool is expected; a value tagged
  \<^verbatim>\<open>REG_SZ\<close> is set, as the string before its terminator, when a String is expected; every
  other pair of tag and expected type returns WrongType and leaves the manager, and
  with it the option table, as it was.
\<close>

theorem LoadValueFromBuf_expected_type:
  "(GetType value = VT_INT \<longrightarrow>
      LoadValueFromBuf m n REG_DWORD (dword_bytes d @ rest) value = Set_opt m n (VInt d))
 \<and> (GetType value = VT_BOOL \<longrightarrow>
      LoadValueFromBuf m n REG_DWORD (dword_bytes d @ rest) value = Set_opt m n (VBool (d \<noteq> 0)))
 \<and> (GetType value = VT_STRING \<and> CHR 0x00 \<notin> set str \<longrightarrow>
      LoadValueFromBuf m n REG_SZ (c_str str @ rest) value = Set_opt m n (VString str))
 \<and> (\<not> (type = REG_SZ \<and> GetType value = VT_STRING)
      \<and> \<not> (type = REG_DWORD \<and> (GetType value = VT_INT \<or> GetType value = VT_BOOL)) \<longrightarrow>
      LoadValueFromBuf m n type data value = (OPT_WRONG_TYPE, m))"
  by (auto simp: LoadValueFromBuf_def Let_def bytes_dword_bytes tcs_read_c_str REG_SZ_def REG_DWORD_def
      word_gt_0)


theorem LoadValueFromBuf_expected_type_witness:
  "LoadValueFromBuf (snd (AddOption mgr0 ''Settings/Width'' (VInt 100))) ''Settings/Width''
       REG_DWORD (dword_bytes 250 @ replicate 252 0) (VInt 100)
     = (OPT_OK, mgr0\<lparr>m_optionsMap := [(''Settings/Width'', VInt 250)]\<rparr>)
 \<and> LoadValueFromBuf (snd (AddOption mgr0 ''Settings/Flag'' (VBool False))) ''Settings/Flag''
       REG_DWORD (dword_bytes 250 @ replicate 252 0) (VBool False)
     = (OPT_OK, mgr0\<lparr>m_optionsMap := [(''Settings/Flag'', VBool True)]\<rparr>)
 \<and> LoadValueFromBuf (snd (AddOption mgr0 ''Settings/Name'' (VString ''x''))) ''Settings/Name''
       REG_SZ (c_str ''abc'' @ replicate 252 0) (VString ''x'')
     = (OPT_OK, mgr0\<lparr>m_optionsMap := [(''Settings/Name'', VString ''abc'')]\<rparr>)
 \<and> LoadValueFromBuf (snd (AddOption mgr0 ''Settings/Width'' (VInt 100))) ''Settings/Width''
       REG_SZ (c_str ''abc'' @ replicate 252 0) (VInt 100)
     = (OPT_WRONG_TYPE, snd (AddOption mgr0 ''Settings/Width'' (VInt 100)))"
  using LoadValueFromBuf_expected_type[of "VInt 100" "snd (AddOption mgr0 ''Settings/Width'' (VInt 100))"
          "''Settings/Width''" 250 "replicate 252 0" "[]" REG_SZ "c_str ''abc'' @ replicate 252 0"]
        LoadValueFromBuf_expected_type[of "VBool False" "snd (AddOption mgr0 ''Settings/Flag'' (VBool False))"
          "''Settings/Flag''" 250 "replicate 252 0" "[]" REG_SZ "[]"]
        LoadValueFromBuf_expected_type[of "VString ''x''" "snd (AddOption mgr0 ''Settings/Name'' (VString ''x''))"
          "''Settings/Name''" 250 "replicate 252 0" "''abc''" REG_SZ "[]"]
  by (simp add: AddOption_def COptionsMgr_AddOption_def Set_opt_def COptionsMgr_Set_def mgr0_def
      CRegOptionsMgr_new_def REG_SZ_def REG_DWORD_def)

section \<open>The registry root (SetRegRootKey)\<close>

lemma prefix_take: "prefix xs ys \<longleftrightarrow> take (length xs) ys = xs"
  by (metis prefix_def append_eq_conv_conj append_take_drop_id)

lemma root_SetRegRootKey:
  "m_registryRoot (snd (SetRegRootKey s key))
     = (if prefix ''Software'' key then key else ''Software'' @ [backslash] @ key)"
  using prefix_take[of "''Software''" key]
  by (simp add: SetRegRootKey_def RegCreateKeyEx_def new_handle_def RegCloseKey_def Let_def)

lemma sc_wait_queue_root:
  "wait_queue s = Some s' \<Longrightarrow> queue_inv s \<Longrightarrow> worker_alive s \<Longrightarrow> m_registryRoot s' = m_registryRoot s"
  using wait_queue_returns by fastforce

lemma sc_WriteAsync_root: "m_registryRoot (WriteAsync s name v) = m_registryRoot s"
  by (simp add: WriteAsync_cases)

lemma root_run: "m_registryRoot (run s evs) = m_registryRoot s"
  by (induction s evs rule: run.induct) (simp_all add: sc_WriteAsync_root sc_worker_step_root)

lemma root_IOHandler:
  "m_registryRoot (IOHandler env key)
     = (if prefix ''Software'' key then key else ''Software'' @ [backslash] @ key)"
  unfolding IOHandler_def by (rule root_SetRegRootKey)

text \<open>
  C8, as stated, fails: no single prefix makes the rule of the specification true of
  every path. \<^verbatim>\<open>SetRegRootKey\<close> tests for the text \<^verbatim>\<open>Software\<close> at the front of the path
  and puts \<^verbatim>\<open>Software\\<close>, with the separator, before it. The path \<^verbatim>\<open>SoftwareX\<close> does not
  begin with \<^verbatim>\<open>Software\\<close> and is stored as it is, outside the namespace; the path
  \<^verbatim>\<open>Thing\<close> does not begin with \<^verbatim>\<open>Software\<close> and what is put before it is not the text
  tested for.
\<close>

theorem SetRegRootKey_prefix_counterexample:
  "m_registryRoot (IOHandler env0 ''SoftwareX'') = ''SoftwareX''
 \<and> \<not> prefix (''Software'' @ [backslash]) ''SoftwareX''
 \<and> m_registryRoot (IOHandler env0 ''Thing'') = ''Software'' @ [backslash] @ ''Thing''
 \<and> \<not> prefix ''Software'' ''Thing''
 \<and> \<not> (\<exists>pfx. \<forall>key. m_registryRoot (IOHandler env0 key) = spec_root pfx key)"
proof -
  have a: "m_registryRoot (IOHandler env0 ''SoftwareX'') = ''SoftwareX''"
    by (simp add: root_IOHandler)
  have b: "m_registryRoot (IOHandler env0 ''Thing'') = ''Software'' @ [backslash] @ ''Thing''"
    by (simp add: root_IOHandler)
  have c: "\<not> prefix (''Software'' @ [backslash]) ''SoftwareX''"
    by (simp add: backslash_def)
  have d: "\<not> prefix ''Software'' ''Thing''" by simp
  have e: "\<not> (\<exists>pfx. \<forall>key. m_registryRoot (IOHandler env0 key) = spec_root pfx key)"
  proof
    assume "\<exists>pfx. \<forall>key. m_registryRoot (IOHandler env0 key) = spec_root pfx key"
    then obtain pfx where p: "\<And>key. m_registryRoot (IOHandler env0 key) = spec_root pfx key"
      by blast
    have t: "spec_root pfx ''Thing'' = ''Software'' @ [backslash] @ ''Thing''"
      using p[of "''Thing''"] b by simp
    have np: "\<not> prefix pfx ''Thing''"
    proof
      assume "prefix pfx ''Thing''"
      with t have "''Thing'' = ''Software'' @ [backslash] @ ''Thing''" by (simp add: spec_root_def)
      then show False by simp
    qed
    with t have "pfx @ ''Thing'' = (''Software'' @ [backslash]) @ ''Thing''"
      by (simp add: spec_root_def)
    then have pfx: "pfx = ''Software'' @ [backslash]" by (simp only: append_same_eq)
    have "spec_root pfx ''SoftwareX'' = ''SoftwareX''" using p[of "''SoftwareX''"] a by simp
    with c pfx show False by (simp add: spec_root_def)
  qed
  from a b c d e show ?thesis by blast
qed

text \<open>
  C8, amended: the root that \<^verbatim>\<open>SetRegRootKey\<close> stores, and with it the root of a
  constructed handler, is the given path when the path begins with the text
  \<^verbatim>\<open>Software\<close> (whether or not a separator follows), and \<^verbatim>\<open>Software\\<close> put once before the
  given path otherwise. Normalising a stored root again changes nothing, and no other
  operation of the handler (opening and closing keys, reading, saving, posted writes and
  steps of the writer thread) changes the root.
\<close>

theorem SetRegRootKey_prefix:
  "m_registryRoot (snd (SetRegRootKey s key))
     = (if prefix ''Software'' key then key else ''Software'' @ [backslash] @ key)
 \<and> m_registryRoot (IOHandler env key)
     = (if prefix ''Software'' key then key else ''Software'' @ [backslash] @ key)
 \<and> m_registryRoot (snd (SetRegRootKey s' (m_registryRoot (snd (SetRegRootKey s key)))))
     = m_registryRoot (snd (SetRegRootKey s key))
 \<and> m_registryRoot (snd (OpenKey s p b)) = m_registryRoot s
 \<and> m_registryRoot (CloseKey s h p) = m_registryRoot s
 \<and> m_registryRoot (snd (Read s name buf)) = m_registryRoot s
 \<and> m_registryRoot (snd (SaveValueToReg s h n v)) = m_registryRoot s
 \<and> m_registryRoot (run s evs) = m_registryRoot s"
proof -
  have idem: "m_registryRoot (snd (SetRegRootKey s' (m_registryRoot (snd (SetRegRootKey s key)))))
     = m_registryRoot (snd (SetRegRootKey s key))"
    by (simp add: root_SetRegRootKey)
  have ctor: "m_registryRoot (IOHandler env key)
     = (if prefix ''Software'' key then key else ''Software'' @ [backslash] @ key)"
    unfolding IOHandler_def by (rule root_SetRegRootKey)
  have set: "m_registryRoot (snd (SetRegRootKey s key))
     = (if prefix ''Software'' key then key else ''Software'' @ [backslash] @ key)"
    by (rule root_SetRegRootKey)
  have frame: "m_registryRoot (snd (OpenKey s p b)) = m_registryRoot s
     \<and> m_registryRoot (CloseKey s h p) = m_registryRoot s
     \<and> m_registryRoot (snd (Read s name buf)) = m_registryRoot s
     \<and> m_registryRoot (snd (SaveValueToReg s h n v)) = m_registryRoot s"
    using sc_OpenKey[of s p b] sc_CloseKey[of s h p] sc_Read[of s name buf] sc_SaveValueToReg[of s h n v]
    by (simp add: same_control_def)
  from set ctor idem frame root_run[of s evs] show ?thesis by blast
qed

section \<open>Deleting, then reading\<close>

lemma handle_path_Inl:
  "handle_path s h = Inl e \<Longrightarrow> e = ERROR_INVALID_HANDLE \<or> e = ERROR_KEY_DELETED"
  by (auto simp: handle_path_def split: if_splits option.splits hentry.splits)

lemma handle_path_cong:
  "htab s' h = htab s h \<Longrightarrow> lookup_key (hkcu s') p = Some k' \<Longrightarrow> handle_path s h = Inr p \<Longrightarrow>
   handle_path s' h = Inr p"
  by (auto simp: handle_path_def split: if_splits option.splits hentry.splits)

lemma key_value_delete_same:
  "lookup_key (hkcu s) p = Some k \<Longrightarrow>
   key_value (s\<lparr>hkcu := modify_key (delete_value n) (hkcu s) p\<rparr>) p n = None"
  by (simp add: key_value_def lookup_modify_same delete_value_def delete_conv')

lemma query_fails:
  "handle_path s h = Inl e \<Longrightarrow> RegQueryValueEx s h n buf sz = (e, 0, buf, sz)"
  by (simp add: RegQueryValueEx_def)

lemma query_absent:
  "handle_path s h = Inr p \<Longrightarrow> key_value s p n = None \<Longrightarrow>
   RegQueryValueEx s h n buf sz = (ERROR_FILE_NOT_FOUND, 0, buf, sz)"
  by (simp add: RegQueryValueEx_def)

lemma query_after_delete_value:
  "fst (RegQueryValueEx (snd (RegDeleteValue s h n)) h n buf sz)
     \<in> {ERROR_FILE_NOT_FOUND, ERROR_INVALID_HANDLE, ERROR_KEY_DELETED}"
proof (cases "handle_path s h")
  case (Inl e)
  then have "snd (RegDeleteValue s h n) = s" by (simp add: RegDeleteValue_def)
  with Inl handle_path_Inl[OF Inl] show ?thesis by (auto simp: query_fails)
next
  case (Inr p)
  obtain k where k: "lookup_key (hkcu s) p = Some k"
    using handle_path_live[OF Inr] by blast
  show ?thesis
  proof (cases "key_value s p n")
    case None
    with Inr have "snd (RegDeleteValue s h n) = s" by (simp add: RegDeleteValue_def)
    with Inr None show ?thesis by (simp add: query_absent)
  next
    case (Some v)
    let ?s' = "s\<lparr>hkcu := modify_key (delete_value n) (hkcu s) p\<rparr>"
    have s': "snd (RegDeleteValue s h n) = ?s'"
      using Inr Some by (simp add: RegDeleteValue_def)
    have "handle_path ?s' h = Inr p"
      by (rule handle_path_cong[OF _ _ Inr]) (simp_all add: lookup_modify_same[OF k])
    moreover have "key_value ?s' p n = None" by (rule key_value_delete_same[OF k])
    ultimately show ?thesis by (simp add: s' query_absent)
  qed
qed

lemma query_after_delete_tree:
  "fst (RegQueryValueEx (snd (RegDeleteTree s h)) h n buf sz)
     \<in> {ERROR_FILE_NOT_FOUND, ERROR_INVALID_HANDLE, ERROR_KEY_DELETED}"
proof (cases "handle_path s h")
  case (Inl e)
  then have "snd (RegDeleteTree s h) = s" by (simp add: RegDeleteTree_def)
  with Inl handle_path_Inl[OF Inl] show ?thesis by (auto simp: query_fails)
next
  case (Inr p)
  obtain k where k: "lookup_key (hkcu s) p = Some k"
    using handle_path_live[OF Inr] by blast
  let ?s' = "snd (RegDeleteTree s h)"
  have hk: "hkcu ?s' = modify_key clear_key (hkcu s) p"
    using Inr by (simp add: RegDeleteTree_def)
  have ht: "htab ?s' h = htab s h"
    using Inr by (auto simp: RegDeleteTree_def handle_path_def split: if_splits option.splits hentry.splits)
  have "handle_path ?s' h = Inr p"
    by (rule handle_path_cong[OF ht _ Inr]) (simp add: hk lookup_modify_same[OF k])
  moreover have "key_value ?s' p n = None"
    by (simp add: key_value_def hk lookup_modify_same[OF k] clear_key_def)
  ultimately show ?thesis by (simp add: query_absent)
qed

lemma hKeys_RegDeleteValue: "m_hKeys (snd (RegDeleteValue s h n)) = m_hKeys s"
  by (simp add: RegDeleteValue_def split: sum.splits)

lemma hKeys_RegDeleteTree: "m_hKeys (snd (RegDeleteTree s h)) = m_hKeys s"
  by (simp add: RegDeleteTree_def split: sum.splits)

lemma OpenKey_create_cached:
  "map_of (m_hKeys (snd (OpenKey s p True))) p = Some (fst (OpenKey s p True))"
  by (cases "map_of (m_hKeys s) p") (simp_all add: OpenKey_miss_create OpenKey_hit update_conv')

lemma CloseKey_keep: "\<not> m_bCloseHandle s \<Longrightarrow> CloseKey s h p = s"
  by (simp add: CloseKey_def)

text \<open>\<^verbatim>\<open>Remove\<close> after its wait, and the status of \<^verbatim>\<open>Read\<close> on a cached handle.\<close>

lemma Remove_unfold:
  "wait_queue s = Some s1 \<Longrightarrow> \<not> m_bCloseHandle s1 \<Longrightarrow>
   Remove s name =
     Some (OPT_OK,
       if snd (SplitName name) = []
       then snd (RegDeleteTree (snd (OpenKey s1 (fst (SplitName name)) True))
                   (fst (OpenKey s1 (fst (SplitName name)) True)))
       else snd (RegDeleteValue (snd (OpenKey s1 (fst (SplitName name)) True))
                   (fst (OpenKey s1 (fst (SplitName name)) True)) (snd (SplitName name))))"
proof -
  assume w: "wait_queue s = Some s1" and nc: "\<not> m_bCloseHandle s1"
  let ?p = "fst (SplitName name)" and ?n = "snd (SplitName name)"
  let ?h = "fst (OpenKey s1 ?p True)" and ?s2 = "snd (OpenKey s1 ?p True)"
  have nc2: "\<not> m_bCloseHandle ?s2"
    using sc_OpenKey[of s1 ?p True] nc by (simp add: same_control_def)
  have "\<not> m_bCloseHandle (snd (RegDeleteTree ?s2 ?h))"
    using sc_RegDeleteTree[of ?s2 ?h] nc2 by (simp add: same_control_def)
  moreover have "\<not> m_bCloseHandle (snd (RegDeleteValue ?s2 ?h ?n))"
    using sc_RegDeleteValue[of ?s2 ?h ?n] nc2 by (simp add: same_control_def)
  ultimately show ?thesis
    using w by (simp add: Remove_def Let_def case_prod_beta CloseKey_keep)
qed

lemma Read_status_cached:
  assumes "map_of (m_hKeys s) (fst (SplitName name)) = Some h"
  shows "fst (fst (Read s name buf)) =
     (if h \<noteq> nullptr then
        (let r = fst (RegQueryValueEx s h (snd (SplitName name))
                   ((if length buf < 256 then resize 256 buf else buf)[0 := 0])
                   (length (if length buf < 256 then resize 256 buf else buf)))
         in if r = ERROR_MORE_DATA then
              fst (RegQueryValueEx s h (snd (SplitName name))
                (resize (snd (snd (snd (RegQueryValueEx s h (snd (SplitName name))
                   ((if length buf < 256 then resize 256 buf else buf)[0 := 0])
                   (length (if length buf < 256 then resize 256 buf else buf))))))
                  (fst (snd (snd (RegQueryValueEx s h (snd (SplitName name))
                   ((if length buf < 256 then resize 256 buf else buf)[0 := 0])
                   (length (if length buf < 256 then resize 256 buf else buf)))))))
                (snd (snd (snd (RegQueryValueEx s h (snd (SplitName name))
                   ((if length buf < 256 then resize 256 buf else buf)[0 := 0])
                   (length (if length buf < 256 then resize 256 buf else buf)))))))
            else r)
      else ERROR_FILE_NOT_FOUND)"
  using assms by (simp add: Read_def Let_def case_prod_beta OpenKey_hit)

lemma Read_not_success:
  assumes "map_of (m_hKeys s) (fst (SplitName name)) = Some h"
    and "\<And>b sz. fst (RegQueryValueEx s h (snd (SplitName name)) b sz)
            \<in> {ERROR_FILE_NOT_FOUND, ERROR_INVALID_HANDLE, ERROR_KEY_DELETED}"
  shows "fst (fst (Read s name buf)) \<noteq> ERROR_SUCCESS"
proof -
  let ?b = "(if length buf < 256 then resize 256 buf else buf)[0 := 0]"
  let ?sz = "length (if length buf < 256 then resize 256 buf else buf)"
  have "fst (RegQueryValueEx s h (snd (SplitName name)) ?b ?sz)
            \<in> {ERROR_FILE_NOT_FOUND, ERROR_INVALID_HANDLE, ERROR_KEY_DELETED}"
    by (rule assms(2))
  then show ?thesis
    by (auto simp add: Read_status_cached[OF assms(1)] Let_def)
qed

lemma worker_step_idle: "msg_queue s = [] \<Longrightarrow> worker s = W_GetMessage \<Longrightarrow> worker_step s = s"
  by (simp add: worker_step_def)

lemma Remove_then_Read_aux:
  assumes inv: "queue_inv s" and alive: "worker_alive s" and nc: "\<not> m_bCloseHandle s"
  shows "\<exists>s'. Remove s name = Some (OPT_OK, s')
          \<and> m_dwQueueCount s' = 0 \<and> msg_queue s' = [] \<and> worker s' = W_GetMessage
          \<and> worker_step s' = s'
          \<and> fst (fst (Read s' name buf)) \<noteq> ERROR_SUCCESS"
proof -
  let ?p = "fst (SplitName name)" and ?n = "snd (SplitName name)"
  obtain s1 where w: "wait_queue s = Some s1" and z: "m_dwQueueCount s1 = 0"
    and inv1: "queue_inv s1" and alive1: "worker_alive s1" and nc1: "\<not> m_bCloseHandle s1"
    using wait_queue_returns[OF inv alive] nc by auto
  have idle1: "msg_queue s1 = [] \<and> worker s1 = W_GetMessage"
    using inv1 alive1 z by (rule idle_when_zero)
  let ?h = "fst (OpenKey s1 ?p True)" and ?s2 = "snd (OpenKey s1 ?p True)"
  let ?s' = "if ?n = [] then snd (RegDeleteTree ?s2 ?h) else snd (RegDeleteValue ?s2 ?h ?n)"
  have rem: "Remove s name = Some (OPT_OK, ?s')"
    by (rule Remove_unfold[OF w nc1])
  have sc2: "same_control s1 ?s2" by (rule sc_OpenKey)
  have sc': "same_control ?s2 ?s'"
    by (simp add: sc_RegDeleteTree sc_RegDeleteValue)
  have sc: "same_control s1 ?s'" using sc2 sc' by (rule same_control_trans)
  have ctl: "m_dwQueueCount ?s' = 0 \<and> msg_queue ?s' = [] \<and> worker ?s' = W_GetMessage"
    using sc z idle1 by (simp add: same_control_def)
  have cached: "map_of (m_hKeys ?s') ?p = Some ?h"
    by (simp add: hKeys_RegDeleteTree hKeys_RegDeleteValue OpenKey_create_cached)
  have q: "\<And>b sz. fst (RegQueryValueEx ?s' ?h ?n b sz)
            \<in> {ERROR_FILE_NOT_FOUND, ERROR_INVALID_HANDLE, ERROR_KEY_DELETED}"
    using query_after_delete_tree[of ?s2 ?h ?n] query_after_delete_value[of ?s2 ?h ?n]
    by (cases "?n = []") simp_all
  have rd: "fst (fst (Read ?s' name buf)) \<noteq> ERROR_SUCCESS"
    using cached q by (rule Read_not_success)
  have st: "worker_step ?s' = ?s'"
    using ctl by (intro worker_step_idle) simp_all
  from rem ctl st rd show ?thesis by blast
qed

section \<open>The cache of key handles (OpenKey, CloseKey)\<close>

lemma wait_queue_invariant:
  assumes w: "wait_queue s = Some s'" and "I s" and step: "\<And>x. I x \<Longrightarrow> I (worker_step x)"
  shows "I s' \<and> m_dwQueueCount s' = 0"
proof -
  have "I s \<longrightarrow> I s' \<and> m_dwQueueCount s' = 0"
  proof (rule wait_queue.raw_induct[where P = "\<lambda>s s'. I s \<longrightarrow> I s' \<and> m_dwQueueCount s' = 0", OF _ w])
    fix f :: "sys \<Rightarrow> sys option" and x y
    assume ih: "\<And>a b. f a = Some b \<Longrightarrow> I a \<longrightarrow> I b \<and> m_dwQueueCount b = 0"
      and eq: "(if m_dwQueueCount x \<noteq> 0 then f (worker_step x) else Some x) = Some y"
    show "I x \<longrightarrow> I y \<and> m_dwQueueCount y = 0"
    proof (cases "m_dwQueueCount x = 0")
      case True
      with eq show ?thesis by simp
    next
      case False
      with eq have "f (worker_step x) = Some y" by simp
      from ih[OF this] step show ?thesis by blast
    qed
  qed
  with assms(2) show ?thesis by blast
qed

lemma update_absent: "map_of al k = None \<Longrightarrow> AList.update k v al = al @ [(k, v)]"
  by (induction al) (auto split: if_splits)

subsection \<open>OpenKey\<close>

lemma OpenKey_miss_open_absent:
  "map_of (m_hKeys s) p = None \<Longrightarrow> lookup_key (hkcu s) (split_path (m_registryRoot s @ p)) = None \<Longrightarrow>
   OpenKey s p False = (nullptr, s\<lparr>n_open_calls := Suc (n_open_calls s)\<rparr>)"
  by (simp add: OpenKey_def RegOpenKeyEx_def Let_def)

lemma OpenKey_miss_open_present:
  "map_of (m_hKeys s) p = None \<Longrightarrow> lookup_key (hkcu s) (split_path (m_registryRoot s @ p)) = Some k \<Longrightarrow>
   OpenKey s p False =
     (Suc (next_h s),
      s\<lparr>n_open_calls := Suc (n_open_calls s),
        htab := (htab s)(Suc (next_h s) \<mapsto> HLive (split_path (m_registryRoot s @ p))),
        next_h := Suc (next_h s),
        m_hKeys := AList.update p (Suc (next_h s)) (m_hKeys s)\<rparr>)"
  by (simp add: OpenKey_def RegOpenKeyEx_def new_handle_def Let_def)

lemma OpenKey_miss_calls:
  "map_of (m_hKeys s) p = None \<Longrightarrow> n_open_calls (snd (OpenKey s p b)) = Suc (n_open_calls s)"
  by (cases b; cases "lookup_key (hkcu s) (split_path (m_registryRoot s @ p))")
    (simp_all add: OpenKey_miss_create OpenKey_miss_open_absent OpenKey_miss_open_present)

lemma OpenKey_cached:
  "fst (OpenKey s p b) \<noteq> nullptr \<Longrightarrow>
   map_of (m_hKeys (snd (OpenKey s p b))) p = Some (fst (OpenKey s p b))"
  by (cases "map_of (m_hKeys s) p"; cases b;
      cases "lookup_key (hkcu s) (split_path (m_registryRoot s @ p))")
    (simp_all add: OpenKey_miss_create OpenKey_hit OpenKey_miss_open_absent
      OpenKey_miss_open_present update_conv')

lemma OpenKey_again:
  "fst (OpenKey s p b) \<noteq> nullptr \<Longrightarrow>
   OpenKey (snd (OpenKey s p b)) p b' = (fst (OpenKey s p b), snd (OpenKey s p b))"
  by (rule OpenKey_hit) (rule OpenKey_cached)

lemma OpenKey_create_live:
  "map_of (m_hKeys s) p = None \<Longrightarrow>
   fst (OpenKey s p True) \<noteq> nullptr
   \<and> handle_path (snd (OpenKey s p True)) (fst (OpenKey s p True))
       = Inr (split_path (m_registryRoot s @ p))"
  using lookup_create_same[of "hkcu s" "split_path (m_registryRoot s @ p)"]
  by (auto simp: OpenKey_miss_create handle_path_def nullptr_def)

lemma OpenKey_keeps:
  "map_of (m_hKeys s) q = Some h \<Longrightarrow> map_of (m_hKeys (snd (OpenKey s p b))) q = Some h"
  by (cases "map_of (m_hKeys s) p"; cases b;
      cases "lookup_key (hkcu s) (split_path (m_registryRoot s @ p))")
    (auto simp add: OpenKey_miss_create OpenKey_hit OpenKey_miss_open_absent
      OpenKey_miss_open_present update_conv')

lemma hKeys_SaveValueToReg: "m_hKeys (snd (SaveValueToReg s h n v)) = m_hKeys s"
  by (cases v) (simp_all add: SaveValueToReg_def RegSetValueEx_def Let_def case_prod_beta split: sum.splits)

lemma Read_state:
  "snd (Read s name buf) =
     CloseKey (snd (OpenKey s (fst (SplitName name)) False)) (fst (OpenKey s (fst (SplitName name)) False))
       (fst (SplitName name))"
  by (simp add: Read_def Let_def case_prod_beta)

lemma Read_keeps:
  "\<not> m_bCloseHandle s \<Longrightarrow> map_of (m_hKeys s) q = Some h \<Longrightarrow>
   map_of (m_hKeys (snd (Read s name buf))) q = Some h"
  using sc_OpenKey[of s "fst (SplitName name)" False]
  by (simp add: Read_state CloseKey_keep same_control_def OpenKey_keeps)

lemma apply_write_keeps:
  assumes "\<not> m_bCloseHandle s" "map_of (m_hKeys s) q = Some h"
  shows "map_of (m_hKeys (apply_write s name v)) q = Some h"
proof -
  let ?p = "fst (SplitName name)"
  let ?s1 = "snd (OpenKey s ?p True)"
  let ?s2 = "snd (SaveValueToReg ?s1 (fst (OpenKey s ?p True)) (snd (SplitName name)) v)"
  have "same_control s ?s2"
    by (blast intro: same_control_trans sc_OpenKey sc_SaveValueToReg)
  then have "\<not> m_bCloseHandle ?s2" using assms(1) by (simp add: same_control_def)
  then have "apply_write s name v = ?s2"
    by (simp add: apply_write_def Let_def case_prod_beta CloseKey_keep)
  then show ?thesis
    using assms(2) by (simp add: hKeys_SaveValueToReg OpenKey_keeps)
qed

lemma worker_step_keeps:
  assumes "\<not> m_bCloseHandle s" "map_of (m_hKeys s) q = Some h"
  shows "map_of (m_hKeys (worker_step s)) q = Some h"
proof (cases "worker s")
  case (W_Apply n v)
  then show ?thesis using assms by (simp add: worker_step_Apply apply_write_keeps)
qed (use assms in \<open>auto simp: worker_step_def split: list.splits MSG.splits\<close>)

lemma WriteAsync_keeps: "m_hKeys (WriteAsync s name v) = m_hKeys s"
  by (simp add: WriteAsync_cases)

lemma Remove_keeps:
  assumes "Remove s name = Some (r, s')" "\<not> m_bCloseHandle s" "map_of (m_hKeys s) q = Some h"
  shows "map_of (m_hKeys s') q = Some h"
proof -
  obtain s1 where w: "wait_queue s = Some s1"
    using assms(1) by (auto simp: Remove_def Let_def case_prod_beta split: option.splits)
  have "(\<not> m_bCloseHandle s1 \<and> map_of (m_hKeys s1) q = Some h) \<and> m_dwQueueCount s1 = 0"
    using w
  proof (rule wait_queue_invariant)
    show "\<not> m_bCloseHandle s \<and> map_of (m_hKeys s) q = Some h" using assms by simp
  next
    fix x :: sys assume "\<not> m_bCloseHandle x \<and> map_of (m_hKeys x) q = Some h"
    then show "\<not> m_bCloseHandle (worker_step x) \<and> map_of (m_hKeys (worker_step x)) q = Some h"
      by (simp add: worker_step_keeps sc_worker_step_root)
  qed
  then have nc: "\<not> m_bCloseHandle s1" and c: "map_of (m_hKeys s1) q = Some h" by simp_all
  have "Some (r, s') = Some (OPT_OK,
       if snd (SplitName name) = []
       then snd (RegDeleteTree (snd (OpenKey s1 (fst (SplitName name)) True))
                   (fst (OpenKey s1 (fst (SplitName name)) True)))
       else snd (RegDeleteValue (snd (OpenKey s1 (fst (SplitName name)) True))
                   (fst (OpenKey s1 (fst (SplitName name)) True)) (snd (SplitName name))))"
    using Remove_unfold[OF w nc, of name] assms(1) by simp
  then show ?thesis
    using c by (auto simp: hKeys_RegDeleteTree hKeys_RegDeleteValue OpenKey_keeps split: if_splits)
qed


subsection \<open>One open handle per cached path\<close>

lemma handles_inv_frame:
  assumes "handles_inv s" "m_hKeys s' = m_hKeys s" "next_h s \<le> next_h s'"
    and "\<And>h. (htab s' h \<noteq> None) = (htab s h \<noteq> None)"
  shows "handles_inv s'"
  using assms unfolding handles_inv_def by (auto intro: le_trans)

lemma handles_inv_fresh: "handles_inv s \<Longrightarrow> htab s (Suc (next_h s)) = None"
  unfolding handles_inv_def by fastforce

lemma handles_inv_add:
  assumes inv: "handles_inv s" and miss: "map_of (m_hKeys s) p = None"
    and ks: "m_hKeys s' = AList.update p (Suc (next_h s)) (m_hKeys s)"
    and nh: "next_h s' = Suc (next_h s)"
    and ht: "htab s' = (htab s)(Suc (next_h s) \<mapsto> e)"
  shows "handles_inv s'"
proof -
  have ks': "m_hKeys s' = m_hKeys s @ [(p, Suc (next_h s))]"
    using ks miss by (simp add: update_absent)
  have pn: "p \<notin> fst ` set (m_hKeys s)"
    using miss by (simp add: map_of_eq_None_iff)
  have hn: "Suc (next_h s) \<notin> snd ` set (m_hKeys s)"
    using inv unfolding handles_inv_def by fastforce
  show ?thesis
    using inv pn hn unfolding handles_inv_def ks' nh ht
    by (auto simp: nullptr_def)
qed

lemma handles_inv_OpenKey:
  assumes inv: "handles_inv s"
  shows "handles_inv (snd (OpenKey s p b))"
proof (cases "map_of (m_hKeys s) p")
  case (Some h)
  then show ?thesis using inv by (simp add: OpenKey_hit)
next
  case None
  show ?thesis
  proof (cases "b \<or> lookup_key (hkcu s) (split_path (m_registryRoot s @ p)) \<noteq> None")
    case False
    then have "snd (OpenKey s p b) = s\<lparr>n_open_calls := Suc (n_open_calls s)\<rparr>"
      using None by (simp add: OpenKey_miss_open_absent)
    then show ?thesis using inv by (simp add: handles_inv_def)
  next
    case True
    then have "m_hKeys (snd (OpenKey s p b)) = AList.update p (Suc (next_h s)) (m_hKeys s)
        \<and> next_h (snd (OpenKey s p b)) = Suc (next_h s)
        \<and> htab (snd (OpenKey s p b))
            = (htab s)(Suc (next_h s) \<mapsto> HLive (split_path (m_registryRoot s @ p)))"
      using None by (cases b) (auto simp: OpenKey_miss_create OpenKey_miss_open_present)
    then show ?thesis using handles_inv_add[OF inv None] by blast
  qed
qed

lemma htab_dom_SaveValueToReg:
  "htab (snd (SaveValueToReg s h n v)) = htab s \<and> next_h (snd (SaveValueToReg s h n v)) = next_h s"
  by (cases v) (simp_all add: SaveValueToReg_def RegSetValueEx_def Let_def case_prod_beta split: sum.splits)

lemma htab_dom_RegDeleteValue:
  "htab (snd (RegDeleteValue s h n)) = htab s \<and> next_h (snd (RegDeleteValue s h n)) = next_h s"
  by (simp add: RegDeleteValue_def split: sum.splits)

lemma htab_dom_RegDeleteTree:
  "(htab (snd (RegDeleteTree s h)) x \<noteq> None) = (htab s x \<noteq> None)
   \<and> next_h (snd (RegDeleteTree s h)) = next_h s"
  by (simp add: RegDeleteTree_def split: sum.splits option.splits hentry.splits)

lemma handles_inv_Read:
  assumes "handles_inv s" "\<not> m_bCloseHandle s"
  shows "handles_inv (snd (Read s name buf))"
  using sc_OpenKey[of s "fst (SplitName name)" False] assms
  by (simp add: Read_state CloseKey_keep same_control_def handles_inv_OpenKey)

lemma handles_inv_apply_write:
  assumes "handles_inv s" "\<not> m_bCloseHandle s"
  shows "handles_inv (apply_write s name v)"
proof -
  let ?p = "fst (SplitName name)"
  let ?s1 = "snd (OpenKey s ?p True)"
  let ?s2 = "snd (SaveValueToReg ?s1 (fst (OpenKey s ?p True)) (snd (SplitName name)) v)"
  have "same_control s ?s2"
    by (blast intro: same_control_trans sc_OpenKey sc_SaveValueToReg)
  then have "\<not> m_bCloseHandle ?s2" using assms(2) by (simp add: same_control_def)
  then have eq: "apply_write s name v = ?s2"
    by (simp add: apply_write_def Let_def case_prod_beta CloseKey_keep)
  have "handles_inv ?s1" using assms(1) by (rule handles_inv_OpenKey)
  then have "handles_inv ?s2"
    by (rule handles_inv_frame) (simp_all add: hKeys_SaveValueToReg htab_dom_SaveValueToReg)
  with eq show ?thesis by simp
qed

lemma handles_inv_worker_step:
  assumes "handles_inv s" "\<not> m_bCloseHandle s"
  shows "handles_inv (worker_step s)"
proof (cases "worker s")
  case (W_Apply n v)
  have "handles_inv (apply_write s n v)" using assms by (rule handles_inv_apply_write)
  then show ?thesis using W_Apply by (simp add: worker_step_Apply handles_inv_def)
qed (use assms in \<open>auto simp: worker_step_def handles_inv_def split: list.splits MSG.splits\<close>)

lemma handles_inv_WriteAsync: "handles_inv s \<Longrightarrow> handles_inv (WriteAsync s name v)"
  by (auto simp: WriteAsync_cases handles_inv_def)

lemma fold_close:
  "htab (fold (\<lambda>pair s'. RegCloseKey s' (snd pair)) xs s) h
     = (if h \<in> snd ` set xs then None else htab s h)"
  by (induction xs arbitrary: s) (auto simp: RegCloseKey_def)

lemma CloseKeys_htab:
  "m_hKeys (CloseKeys s) = []
   \<and> htab (CloseKeys s) h = (if h \<in> snd ` set (m_hKeys s) then None else htab s h)"
  by (simp add: CloseKeys_def fold_close)

lemma CloseKeys_all_closed: "handles_inv s \<Longrightarrow> htab (CloseKeys s) h = None"
  by (auto simp: CloseKeys_htab handles_inv_def)

lemma handles_inv_CloseKeys: "handles_inv s \<Longrightarrow> handles_inv (CloseKeys s)"
  using CloseKeys_all_closed[of s] CloseKeys_htab[of s]
  by (simp add: handles_inv_def)

lemma handles_inv_IOHandler:
  assumes "\<And>h. htab env h = None"
  shows "handles_inv (IOHandler env path)"
  using assms
  by (simp add: IOHandler_def SetRegRootKey_def RegCreateKeyEx_def new_handle_def RegCloseKey_def
      Let_def handles_inv_def)


lemma fold_close_flag:
  "m_bCloseHandle (fold (\<lambda>pair s'. RegCloseKey s' (snd pair)) xs s) = m_bCloseHandle s"
  by (induction xs arbitrary: s) (auto simp: RegCloseKey_def)

lemma flag_CloseKeys: "m_bCloseHandle (CloseKeys s) = m_bCloseHandle s"
  by (simp add: CloseKeys_def fold_close_flag)

lemma handles_inv_Remove:
  assumes "Remove s name = Some (r, s')" "\<not> m_bCloseHandle s" "handles_inv s"
  shows "handles_inv s'"
proof -
  obtain s1 where w: "wait_queue s = Some s1"
    using assms(1) by (auto simp: Remove_def Let_def case_prod_beta split: option.splits)
  have "(\<not> m_bCloseHandle s1 \<and> handles_inv s1) \<and> m_dwQueueCount s1 = 0"
    using w
  proof (rule wait_queue_invariant)
    show "\<not> m_bCloseHandle s \<and> handles_inv s" using assms by simp
  next
    fix x :: sys assume "\<not> m_bCloseHandle x \<and> handles_inv x"
    then show "\<not> m_bCloseHandle (worker_step x) \<and> handles_inv (worker_step x)"
      by (simp add: handles_inv_worker_step sc_worker_step_root)
  qed
  then have nc: "\<not> m_bCloseHandle s1" and c: "handles_inv s1" by simp_all
  let ?p = "fst (SplitName name)"
  let ?h = "fst (OpenKey s1 ?p True)" and ?s2 = "snd (OpenKey s1 ?p True)"
  have i2: "handles_inv ?s2" using c by (rule handles_inv_OpenKey)
  have t: "handles_inv (snd (RegDeleteTree ?s2 ?h))"
  proof (rule handles_inv_frame[OF i2])
    fix x show "(htab (snd (RegDeleteTree ?s2 ?h)) x \<noteq> None) = (htab ?s2 x \<noteq> None)"
      using htab_dom_RegDeleteTree[of ?s2 ?h x] by blast
  qed (simp_all add: hKeys_RegDeleteTree htab_dom_RegDeleteTree)
  have v: "handles_inv (snd (RegDeleteValue ?s2 ?h (snd (SplitName name))))"
    using i2 by (rule handles_inv_frame) (simp_all add: hKeys_RegDeleteValue htab_dom_RegDeleteValue)
  have "Some (r, s') = Some (OPT_OK,
       if snd (SplitName name) = [] then snd (RegDeleteTree ?s2 ?h)
       else snd (RegDeleteValue ?s2 ?h (snd (SplitName name))))"
    using Remove_unfold[OF w nc, of name] assms(1) by simp
  then show ?thesis
    using t v by (auto split: if_splits)
qed

text \<open>
  C9: \<^verbatim>\<open>OpenKey\<close> on a cached path returns the cached handle and leaves the state as it
  is, so it makes no call of \<^verbatim>\<open>RegCreateKeyEx\<close> or \<^verbatim>\<open>RegOpenKeyEx\<close>. On a path that is
  not cached it makes one such call; when it creates, the handle is open on the key the
  path names. A handle it returns is cached, and every further \<^verbatim>\<open>OpenKey\<close> on that path
  returns the same handle without a change of state. \<^verbatim>\<open>m_bCloseHandle\<close> is false after
  construction and no operation changes it; while it is false \<^verbatim>\<open>CloseKey\<close> does nothing,
  and reads, removes, posted writes and steps of the writer thread keep every cache
  entry. \<^verbatim>\<open>CloseKeys\<close>, the explicit close, empties the cache and closes every handle.
  Throughout, the open handles are the cached ones, one per cached path.
\<close>

theorem OpenKey_cache:
  "(map_of (m_hKeys s) p = Some h \<longrightarrow> OpenKey s p b = (h, s))
 \<and> (map_of (m_hKeys s) p = None \<longrightarrow>
       n_open_calls (snd (OpenKey s p b)) = Suc (n_open_calls s)
     \<and> fst (OpenKey s p True) \<noteq> nullptr
     \<and> handle_path (snd (OpenKey s p True)) (fst (OpenKey s p True))
           = Inr (split_path (m_registryRoot s @ p)))
 \<and> (fst (OpenKey s p b) \<noteq> nullptr \<longrightarrow>
       map_of (m_hKeys (snd (OpenKey s p b))) p = Some (fst (OpenKey s p b))
     \<and> OpenKey (snd (OpenKey s p b)) p b' = (fst (OpenKey s p b), snd (OpenKey s p b)))
 \<and> (\<not> m_bCloseHandle s \<longrightarrow> CloseKey s h' p' = s)
 \<and> (\<not> m_bCloseHandle s \<and> map_of (m_hKeys s) q = Some h \<longrightarrow>
       map_of (m_hKeys (snd (OpenKey s p b))) q = Some h
     \<and> map_of (m_hKeys (snd (Read s name buf))) q = Some h
     \<and> map_of (m_hKeys (worker_step s)) q = Some h
     \<and> map_of (m_hKeys (WriteAsync s name v)) q = Some h
     \<and> (\<forall>r s'. Remove s name = Some (r, s') \<longrightarrow> map_of (m_hKeys s') q = Some h))
 \<and> m_hKeys (CloseKeys s) = []
 \<and> (handles_inv s \<longrightarrow>
       handles_inv (snd (OpenKey s p b)) \<and> handles_inv (WriteAsync s name v)
     \<and> handles_inv (CloseKeys s) \<and> (\<forall>x. htab (CloseKeys s) x = None)
     \<and> (\<not> m_bCloseHandle s \<longrightarrow>
           handles_inv (snd (Read s name buf)) \<and> handles_inv (worker_step s)
         \<and> (\<forall>r s'. Remove s name = Some (r, s') \<longrightarrow> handles_inv s')))
 \<and> (m_bCloseHandle (snd (OpenKey s p b)) = m_bCloseHandle s
     \<and> m_bCloseHandle (snd (Read s name buf)) = m_bCloseHandle s
     \<and> m_bCloseHandle (worker_step s) = m_bCloseHandle s
     \<and> m_bCloseHandle (WriteAsync s name v) = m_bCloseHandle s
     \<and> m_bCloseHandle (CloseKeys s) = m_bCloseHandle s)
 \<and> ((\<forall>x. htab env x = None) \<longrightarrow>
       handles_inv (IOHandler env path) \<and> \<not> m_bCloseHandle (IOHandler env path)
     \<and> m_hKeys (IOHandler env path) = [])"
proof -
  have hit: "map_of (m_hKeys s) p = Some h \<longrightarrow> OpenKey s p b = (h, s)"
    by (simp add: OpenKey_hit)
  have miss: "map_of (m_hKeys s) p = None \<longrightarrow>
       n_open_calls (snd (OpenKey s p b)) = Suc (n_open_calls s)
     \<and> fst (OpenKey s p True) \<noteq> nullptr
     \<and> handle_path (snd (OpenKey s p True)) (fst (OpenKey s p True))
           = Inr (split_path (m_registryRoot s @ p))"
    using OpenKey_create_live[of s p] by (simp add: OpenKey_miss_calls)
  have again: "fst (OpenKey s p b) \<noteq> nullptr \<longrightarrow>
       map_of (m_hKeys (snd (OpenKey s p b))) p = Some (fst (OpenKey s p b))
     \<and> OpenKey (snd (OpenKey s p b)) p b' = (fst (OpenKey s p b), snd (OpenKey s p b))"
    by (simp add: OpenKey_cached OpenKey_again)
  have close: "\<not> m_bCloseHandle s \<longrightarrow> CloseKey s h' p' = s"
    by (simp add: CloseKey_keep)
  have keeps: "\<not> m_bCloseHandle s \<and> map_of (m_hKeys s) q = Some h \<longrightarrow>
       map_of (m_hKeys (snd (OpenKey s p b))) q = Some h
     \<and> map_of (m_hKeys (snd (Read s name buf))) q = Some h
     \<and> map_of (m_hKeys (worker_step s)) q = Some h
     \<and> map_of (m_hKeys (WriteAsync s name v)) q = Some h
     \<and> (\<forall>r s'. Remove s name = Some (r, s') \<longrightarrow> map_of (m_hKeys s') q = Some h)"
    using Remove_keeps[of s name _ _ q h]
    by (simp add: OpenKey_keeps Read_keeps worker_step_keeps WriteAsync_keeps)
  have all: "m_hKeys (CloseKeys s) = []"
    by (simp add: CloseKeys_htab)
  have inv: "handles_inv s \<longrightarrow>
       handles_inv (snd (OpenKey s p b)) \<and> handles_inv (WriteAsync s name v)
     \<and> handles_inv (CloseKeys s) \<and> (\<forall>x. htab (CloseKeys s) x = None)
     \<and> (\<not> m_bCloseHandle s \<longrightarrow>
           handles_inv (snd (Read s name buf)) \<and> handles_inv (worker_step s)
         \<and> (\<forall>r s'. Remove s name = Some (r, s') \<longrightarrow> handles_inv s'))"
    using handles_inv_Remove[of s name]
    by (simp add: handles_inv_OpenKey handles_inv_WriteAsync handles_inv_CloseKeys
        CloseKeys_all_closed handles_inv_Read handles_inv_worker_step)
  have flag: "m_bCloseHandle (snd (OpenKey s p b)) = m_bCloseHandle s
     \<and> m_bCloseHandle (snd (Read s name buf)) = m_bCloseHandle s
     \<and> m_bCloseHandle (worker_step s) = m_bCloseHandle s
     \<and> m_bCloseHandle (WriteAsync s name v) = m_bCloseHandle s
     \<and> m_bCloseHandle (CloseKeys s) = m_bCloseHandle s"
    using sc_OpenKey[of s p b] sc_Read[of s name buf]
    by (simp add: same_control_def sc_worker_step_root WriteAsync_cases flag_CloseKeys)
  have ctor: "(\<forall>x. htab env x = None) \<longrightarrow>
       handles_inv (IOHandler env path) \<and> \<not> m_bCloseHandle (IOHandler env path)
     \<and> m_hKeys (IOHandler env path) = []"
    using handles_inv_IOHandler[of env path]
    by (simp add: IOHandler_def SetRegRootKey_def RegCreateKeyEx_def new_handle_def RegCloseKey_def
        Let_def)
  from hit miss again close keeps all inv flag ctor show ?thesis by blast
qed

theorem OpenKey_cache_witness:
  "handles_inv sys0 \<and> \<not> m_bCloseHandle sys0 \<and> m_hKeys sys0 = []
 \<and> n_open_calls (snd (OpenKey sys0 ''Settings'' True)) = Suc (n_open_calls sys0)
 \<and> fst (OpenKey sys0 ''Settings'' True) \<noteq> nullptr
 \<and> OpenKey (snd (OpenKey sys0 ''Settings'' True)) ''Settings'' False
     = (fst (OpenKey sys0 ''Settings'' True), snd (OpenKey sys0 ''Settings'' True))
 \<and> CloseKey (snd (OpenKey sys0 ''Settings'' True)) (fst (OpenKey sys0 ''Settings'' True)) ''Settings''
     = snd (OpenKey sys0 ''Settings'' True)
 \<and> (\<forall>x. htab (CloseKeys (snd (OpenKey sys0 ''Settings'' True))) x = None)"
proof -
  let ?s1 = "snd (OpenKey sys0 ''Settings'' True)"
  note t0 = OpenKey_cache[of sys0 "''Settings''" 0 True False 0 "[]" "[]" "[]" "[]" VNull env0 winmerge_root]
  note t1 = OpenKey_cache[of ?s1 "''Settings''" "fst (OpenKey sys0 ''Settings'' True)" True False
      "fst (OpenKey sys0 ''Settings'' True)" "''Settings''" "[]" "[]" "[]" VNull env0 winmerge_root]
  have e: "\<forall>x. htab env0 x = None" by (simp add: env0_def)
  have c: "handles_inv sys0 \<and> \<not> m_bCloseHandle sys0 \<and> m_hKeys sys0 = []"
    using t0 e unfolding sys0_def by blast
  then have m: "map_of (m_hKeys sys0) ''Settings'' = None" by simp
  have a: "n_open_calls ?s1 = Suc (n_open_calls sys0) \<and> fst (OpenKey sys0 ''Settings'' True) \<noteq> nullptr"
    using t0 m by blast
  have b: "OpenKey ?s1 ''Settings'' False = (fst (OpenKey sys0 ''Settings'' True), ?s1)"
    using t0 a by blast
  have f: "\<not> m_bCloseHandle ?s1" using t0 c by blast
  have d: "CloseKey ?s1 (fst (OpenKey sys0 ''Settings'' True)) ''Settings'' = ?s1"
    using t1 f by blast
  have i1: "handles_inv ?s1" using t0 c by blast
  have g: "\<forall>x. htab (CloseKeys ?s1) x = None" using t1 i1 by blast
  from c a b d g show ?thesis by blast
qed

section \<open>Values of the hive under updates\<close>

lemma key_value_kv: "key_value s q n = kv (hkcu s) q n"
  by (simp add: key_value_def kv_def)

lemma kv_empty: "kv (RegKey [] []) q n = None"
  by (cases q) (simp_all add: kv_def)

lemma kv_Cons:
  "kv k (d # ds) n = (case map_of (rk_subkeys k) d of None \<Rightarrow> None | Some sub \<Rightarrow> kv sub ds n)"
  by (simp add: kv_def split: option.splits)

lemma kv_Nil: "kv k [] n = map_of (rk_values k) n"
  by (simp add: kv_def)

lemma kv_create: "kv (create_key k p) q n = kv k q n"
proof (induction p arbitrary: k q)
  case Nil
  then show ?case by simp
next
  case (Cons c cs)
  show ?case
  proof (cases q)
    case Nil
    then show ?thesis by (simp add: kv_Nil)
  next
    case (Cons d ds)
    show ?thesis
    proof (cases "d = c")
      case True
      then show ?thesis
        using Cons.IH[of _ ds] by (simp add: Cons kv_Cons update_conv' kv_empty split: option.splits)
    next
      case False
      then show ?thesis by (simp add: Cons kv_Cons update_conv')
    qed
  qed
qed

lemma lookup_create_exists:
  "lookup_key k q = Some x \<Longrightarrow> \<exists>y. lookup_key (create_key k p) q = Some y"
proof (induction p arbitrary: k q x)
  case Nil
  then show ?case by simp
next
  case (Cons c cs)
  show ?case
  proof (cases q)
    case Nil
    then show ?thesis by simp
  next
    case (Cons d ds)
    then show ?thesis
      using Cons.prems Cons.IH[of _ ds]
      by (cases "d = c") (auto simp: update_conv' split: option.splits)
  qed
qed

lemma lookup_modify_subkeys:
  assumes f: "\<And>x. rk_subkeys (f x) = rk_subkeys x"
  shows "lookup_key (f k) (d # ds) = lookup_key k (d # ds)"
  by (simp add: f)

lemma lookup_modify_exists:
  assumes f: "\<And>x. rk_subkeys (f x) = rk_subkeys x"
  shows "(lookup_key (modify_key f k p) q = None) = (lookup_key k q = None)"
proof (induction p arbitrary: k q)
  case Nil
  then show ?case by (cases q) (simp_all add: f)
next
  case (Cons c cs)
  show ?case
  proof (cases "map_of (rk_subkeys k) c")
    case None
    then show ?thesis by simp
  next
    case (Some sub)
    show ?thesis
    proof (cases q)
      case Nil
      then show ?thesis by (simp add: Some)
    next
      case (Cons d ds)
      then show ?thesis
        using Cons.IH[of sub ds] Some
        by (cases "d = c") (simp_all add: update_conv')
    qed
  qed
qed

lemma kv_modify:
  assumes f: "\<And>x. rk_subkeys (f x) = rk_subkeys x"
  shows "kv (modify_key f k p) q n =
     (if q = p then (case lookup_key k p of None \<Rightarrow> None | Some x \<Rightarrow> map_of (rk_values (f x)) n)
      else kv k q n)"
proof (induction p arbitrary: k q)
  case Nil
  then show ?case by (cases q) (simp_all add: kv_def f)
next
  case (Cons c cs)
  show ?case
  proof (cases "map_of (rk_subkeys k) c")
    case None
    then show ?thesis by (simp add: kv_def)
  next
    case (Some sub)
    show ?thesis
    proof (cases q)
      case Nil
      then show ?thesis by (simp add: Some kv_Nil)
    next
      case (Cons d ds)
      then show ?thesis
        using Cons.IH[of sub ds] Some
        by (cases "d = c") (simp_all add: update_conv' kv_Cons)
    qed
  qed
qed

lemma kv_set_value:
  "kv (modify_key (set_value m v) k p) q n =
     (if q = p \<and> n = m \<and> lookup_key k p \<noteq> None then Some v else kv k q n)"
proof -
  have e: "kv (modify_key (set_value m v) k p) q n =
     (if q = p then (case lookup_key k p of None \<Rightarrow> None
                     | Some x \<Rightarrow> map_of (rk_values (set_value m v x)) n)
      else kv k q n)"
    by (rule kv_modify) (simp add: set_value_def)
  show ?thesis
  proof (cases "q = p")
    case True
    then show ?thesis
      unfolding e by (cases "lookup_key k p") (simp_all add: kv_def set_value_def update_conv')
  next
    case False
    then show ?thesis unfolding e by simp
  qed
qed

lemma kv_delete_value:
  "kv (modify_key (delete_value m) k p) q n =
     (if q = p \<and> n = m then None else kv k q n)"
proof -
  have e: "kv (modify_key (delete_value m) k p) q n =
     (if q = p then (case lookup_key k p of None \<Rightarrow> None
                     | Some x \<Rightarrow> map_of (rk_values (delete_value m x)) n)
      else kv k q n)"
    by (rule kv_modify) (simp add: delete_value_def)
  show ?thesis
  proof (cases "q = p")
    case True
    then show ?thesis
      unfolding e by (cases "lookup_key k p") (simp_all add: kv_def delete_value_def delete_conv')
  next
    case False
    then show ?thesis unfolding e by simp
  qed
qed

section \<open>A cache without stale handles\<close>

lemma handle_path_frame:
  assumes "handle_path s h = Inr p" "htab s' h = htab s h"
    and "\<And>q. (lookup_key (hkcu s') q = None) = (lookup_key (hkcu s) q = None)"
  shows "handle_path s' h = Inr p"
  using assms by (auto simp: handle_path_def split: if_splits option.splits hentry.splits)

lemma cache_ok_frame:
  assumes "cache_ok s" "m_hKeys s' = m_hKeys s" "m_registryRoot s' = m_registryRoot s"
    "htab s' = htab s" "next_h s \<le> next_h s'"
    and "\<And>q. (lookup_key (hkcu s') q = None) = (lookup_key (hkcu s) q = None)"
  shows "cache_ok s'"
  unfolding cache_ok_def
proof (intro ballI, clarify)
  fix p h assume "(p, h) \<in> set (m_hKeys s')"
  then have "(p, h) \<in> set (m_hKeys s)" using assms(2) by simp
  then have a: "handle_path s h = Inr (split_path (m_registryRoot s @ p))" and b: "h \<le> next_h s"
    using assms(1) by (auto simp: cache_ok_def)
  have "handle_path s' h = Inr (split_path (m_registryRoot s @ p))"
    using a
  proof (rule handle_path_frame)
    show "htab s' h = htab s h" using assms(4) by simp
  qed (rule assms(6))
  then show "handle_path s' h = Inr (split_path (m_registryRoot s' @ p)) \<and> h \<le> next_h s'"
    using b assms(3,5) by simp
qed

lemma RegSetValueEx_frame:
  "m_hKeys (snd (RegSetValueEx s h n ty d cb)) = m_hKeys s
   \<and> m_registryRoot (snd (RegSetValueEx s h n ty d cb)) = m_registryRoot s
   \<and> htab (snd (RegSetValueEx s h n ty d cb)) = htab s
   \<and> next_h (snd (RegSetValueEx s h n ty d cb)) = next_h s
   \<and> (lookup_key (hkcu (snd (RegSetValueEx s h n ty d cb))) q = None) = (lookup_key (hkcu s) q = None)"
  by (cases "handle_path s h")
    (simp_all add: RegSetValueEx_def lookup_modify_exists set_value_def)

lemma SaveValueToReg_cases:
  "snd (SaveValueToReg s h n v) = s
   \<or> (\<exists>ty d cb. snd (SaveValueToReg s h n v) = snd (RegSetValueEx s h n ty d cb))"
  by (cases v) (auto simp: SaveValueToReg_def Let_def case_prod_beta)

lemma cache_ok_SaveValueToReg:
  assumes "cache_ok s"
  shows "cache_ok (snd (SaveValueToReg s h n v))"
proof -
  from SaveValueToReg_cases[of s h n v] show ?thesis
  proof
    assume "snd (SaveValueToReg s h n v) = s"
    with assms show ?thesis by simp
  next
    assume "\<exists>ty d cb. snd (SaveValueToReg s h n v) = snd (RegSetValueEx s h n ty d cb)"
    then obtain ty d cb where e: "snd (SaveValueToReg s h n v) = snd (RegSetValueEx s h n ty d cb)"
      by blast
    show ?thesis
      unfolding e using assms
      by (rule cache_ok_frame) (simp_all add: RegSetValueEx_frame)
  qed
qed

lemma cache_ok_add:
  assumes ok: "cache_ok s" and miss: "map_of (m_hKeys s) p = None"
    and ks: "m_hKeys s' = AList.update p (Suc (next_h s)) (m_hKeys s)"
    and nh: "next_h s' = Suc (next_h s)"
    and ht: "htab s' = (htab s)(Suc (next_h s) \<mapsto> HLive (split_path (m_registryRoot s @ p)))"
    and rt: "m_registryRoot s' = m_registryRoot s"
    and ex: "\<And>q x. lookup_key (hkcu s) q = Some x \<Longrightarrow> \<exists>y. lookup_key (hkcu s') q = Some y"
    and new: "\<exists>y. lookup_key (hkcu s') (split_path (m_registryRoot s @ p)) = Some y"
  shows "cache_ok s'"
  unfolding cache_ok_def
proof (intro ballI, clarify)
  fix q h assume "(q, h) \<in> set (m_hKeys s')"
  then have "(q, h) \<in> set (m_hKeys s) \<or> (q, h) = (p, Suc (next_h s))"
    using ks miss by (auto simp: update_absent)
  then show "handle_path s' h = Inr (split_path (m_registryRoot s' @ q)) \<and> h \<le> next_h s'"
  proof
    assume in_s: "(q, h) \<in> set (m_hKeys s)"
    then have a: "handle_path s h = Inr (split_path (m_registryRoot s @ q))" and b: "h \<le> next_h s"
      using ok by (auto simp: cache_ok_def)
    obtain x where "lookup_key (hkcu s) (split_path (m_registryRoot s @ q)) = Some x"
      using handle_path_live[OF a] by blast
    then obtain y where "lookup_key (hkcu s') (split_path (m_registryRoot s @ q)) = Some y"
      using ex by blast
    moreover have "htab s' h = htab s h" using b ht by simp
    ultimately have "handle_path s' h = Inr (split_path (m_registryRoot s @ q))"
      using a by (auto simp: handle_path_def split: if_splits option.splits hentry.splits)
    then show ?thesis using b nh rt by simp
  next
    assume "(q, h) = (p, Suc (next_h s))"
    then show ?thesis
      using new ht nh rt by (auto simp: handle_path_def nullptr_def)
  qed
qed

lemma cache_ok_OpenKey:
  assumes ok: "cache_ok s"
  shows "cache_ok (snd (OpenKey s p b))"
proof (cases "map_of (m_hKeys s) p")
  case (Some h)
  then show ?thesis using ok by (simp add: OpenKey_hit)
next
  case None
  show ?thesis
  proof (cases b)
    case True
    have "cache_ok (snd (OpenKey s p True))"
      by (rule cache_ok_add[OF ok None])
        (simp_all add: OpenKey_miss_create[OF None] lookup_create_exists lookup_create_same)
    with True show ?thesis by simp
  next
    case False
    show ?thesis
    proof (cases "lookup_key (hkcu s) (split_path (m_registryRoot s @ p))")
      case None2: None
      have "snd (OpenKey s p b) = s\<lparr>n_open_calls := Suc (n_open_calls s)\<rparr>"
        using None None2 False by (simp add: OpenKey_miss_open_absent)
      moreover have "cache_ok (s\<lparr>n_open_calls := Suc (n_open_calls s)\<rparr>)"
        using ok by (rule cache_ok_frame) simp_all
      ultimately show ?thesis by simp
    next
      case (Some k)
      have "cache_ok (snd (OpenKey s p False))"
        by (rule cache_ok_add[OF ok None])
          (simp_all add: OpenKey_miss_open_present[OF None Some] Some)
      with False show ?thesis by simp
    qed
  qed
qed

lemma OpenKey_handle_ok:
  assumes ok: "cache_ok s" and nn: "fst (OpenKey s p b) \<noteq> nullptr"
  shows "handle_path (snd (OpenKey s p b)) (fst (OpenKey s p b))
           = Inr (split_path (m_registryRoot s @ p))"
proof -
  have c: "map_of (m_hKeys (snd (OpenKey s p b))) p = Some (fst (OpenKey s p b))"
    using nn by (rule OpenKey_cached)
  then have "(p, fst (OpenKey s p b)) \<in> set (m_hKeys (snd (OpenKey s p b)))"
    by (rule map_of_SomeD)
  moreover have "cache_ok (snd (OpenKey s p b))" using ok by (rule cache_ok_OpenKey)
  ultimately show ?thesis
    using sc_OpenKey[of s p b] by (auto simp: cache_ok_def same_control_def)
qed

lemma OpenKey_create_nonnull: "cache_ok s \<Longrightarrow> fst (OpenKey s p True) \<noteq> nullptr"
proof (cases "map_of (m_hKeys s) p")
  case None
  then show ?thesis by (simp add: OpenKey_miss_create nullptr_def)
next
  case (Some h)
  assume "cache_ok s"
  with Some have "handle_path s h = Inr (split_path (m_registryRoot s @ p))"
    by (auto simp: cache_ok_def dest: map_of_SomeD)
  then have "h \<noteq> nullptr" by (auto simp: handle_path_def split: if_splits)
  with Some show ?thesis by (simp add: OpenKey_hit)
qed

lemma OpenKey_open_null:
  assumes ok: "cache_ok s" and n: "fst (OpenKey s p False) = nullptr"
  shows "lookup_key (hkcu s) (split_path (m_registryRoot s @ p)) = None"
proof (cases "map_of (m_hKeys s) p")
  case None
  then show ?thesis
    using n by (cases "lookup_key (hkcu s) (split_path (m_registryRoot s @ p))")
      (simp_all add: OpenKey_miss_open_present nullptr_def)
next
  case (Some h)
  with ok have "handle_path s h = Inr (split_path (m_registryRoot s @ p))"
    by (auto simp: cache_ok_def dest: map_of_SomeD)
  then have "h \<noteq> nullptr" by (auto simp: handle_path_def split: if_splits)
  with Some n show ?thesis by (simp add: OpenKey_hit)
qed

lemma hkcu_OpenKey_open: "hkcu (snd (OpenKey s p False)) = hkcu s"
  by (cases "map_of (m_hKeys s) p"; cases "lookup_key (hkcu s) (split_path (m_registryRoot s @ p))")
    (simp_all add: OpenKey_hit OpenKey_miss_open_absent OpenKey_miss_open_present)

lemma kv_OpenKey: "kv (hkcu (snd (OpenKey s p b))) q n = kv (hkcu s) q n"
  by (cases "map_of (m_hKeys s) p"; cases b;
      cases "lookup_key (hkcu s) (split_path (m_registryRoot s @ p))")
    (simp_all add: OpenKey_hit OpenKey_miss_open_absent OpenKey_miss_open_present
      OpenKey_miss_create kv_create)

section \<open>Reading and saving a stored value\<close>

lemma stored_kv:
  "stored s name = kv (hkcu s) (split_path (m_registryRoot s @ fst (SplitName name))) (snd (SplitName name))"
  by (simp add: stored_def key_value_kv)

lemma SaveValueToReg_live:
  assumes "handle_path s h = Inr p"
  shows "SaveValueToReg s h n v =
     (case reg_payload v of
        None \<Rightarrow> (OPT_UNKNOWN_TYPE, s)
      | Some pl \<Rightarrow> (OPT_OK, s\<lparr>hkcu := modify_key (set_value n pl) (hkcu s) p\<rparr>))"
proof (cases v)
  case (VString str)
  show ?thesis
  proof (cases "str = []")
    case True
    then show ?thesis
      by (simp add: VString SaveValueToReg_def RegSetValueEx_live[OF assms] reg_payload_def c_str_def
          sizeof_tchar_def)
  next
    case False
    then show ?thesis
      by (simp add: VString SaveValueToReg_def RegSetValueEx_live[OF assms] reg_payload_def
          del: of_nat_add of_nat_Suc)
  qed
qed (simp_all add: SaveValueToReg_def RegSetValueEx_live[OF assms] reg_payload_def dword_bytes_def)

lemma SaveValueToReg_kv:
  assumes "handle_path s h = Inr p"
  shows "kv (hkcu (snd (SaveValueToReg s h n v))) q m =
     (if q = p \<and> m = n \<and> reg_payload v \<noteq> None then reg_payload v else kv (hkcu s) q m)"
proof -
  obtain k where k: "lookup_key (hkcu s) p = Some k"
    using handle_path_live[OF assms] by blast
  show ?thesis
    by (cases "reg_payload v") (simp_all add: SaveValueToReg_live[OF assms] kv_set_value k)
qed

lemma SaveValueToReg_dead:
  "handle_path s h = Inl e \<Longrightarrow> snd (SaveValueToReg s h n v) = s"
  by (cases v) (simp_all add: SaveValueToReg_def RegSetValueEx_def Let_def)

lemma hkcu_CloseKey: "hkcu (CloseKey s h p) = hkcu s"
  by (simp add: CloseKey_def RegCloseKey_def Let_def)

lemma hkcu_Read: "hkcu (snd (Read s name buf)) = hkcu s"
  by (simp add: Read_state hkcu_CloseKey hkcu_OpenKey_open)

lemma Read_result:
  "fst (Read s name buf) =
     (let h = fst (OpenKey s (fst (SplitName name)) False);
          s1 = snd (OpenKey s (fst (SplitName name)) False);
          B = (if length buf < 256 then resize 256 buf else buf);
          q1 = (if h \<noteq> nullptr then RegQueryValueEx s1 h (snd (SplitName name)) (B[0 := 0]) (length B)
                else (ERROR_FILE_NOT_FOUND, 0, B, length B))
      in if fst q1 = ERROR_MORE_DATA then
           (let q2 = RegQueryValueEx s1 h (snd (SplitName name))
                       (resize (snd (snd (snd q1))) (fst (snd (snd q1)))) (snd (snd (snd q1)))
            in (fst q2, fst (snd (snd q2)), fst (snd q2)))
         else (fst q1, fst (snd (snd q1)), fst (snd q1)))"
  by (simp add: Read_def Let_def case_prod_beta)

lemma query_present:
  "handle_path s h = Inr p \<Longrightarrow> kv (hkcu s) p n = Some (ty, d) \<Longrightarrow>
   RegQueryValueEx s h n buf sz =
     (if sz < length d then (ERROR_MORE_DATA, ty, buf, length d)
      else (ERROR_SUCCESS, ty, d @ drop (length d) buf, length d))"
  by (simp add: RegQueryValueEx_def key_value_kv)

lemma Read_stored_None:
  assumes ok: "cache_ok s" and st: "stored s name = None"
  shows "fst (fst (Read s name buf)) = ERROR_FILE_NOT_FOUND"
proof -
  let ?p = "fst (SplitName name)" and ?n = "snd (SplitName name)"
  let ?h = "fst (OpenKey s ?p False)" and ?s1 = "snd (OpenKey s ?p False)"
  show ?thesis
  proof (cases "?h = nullptr")
    case True
    then show ?thesis by (simp add: Read_result Let_def)
  next
    case False
    have hp: "handle_path ?s1 ?h = Inr (split_path (m_registryRoot s @ ?p))"
      using ok False by (rule OpenKey_handle_ok)
    have "key_value ?s1 (split_path (m_registryRoot s @ ?p)) ?n = None"
      using st by (simp add: key_value_kv stored_kv hkcu_OpenKey_open)
    then have "\<And>b sz. RegQueryValueEx ?s1 ?h ?n b sz = (ERROR_FILE_NOT_FOUND, 0, b, sz)"
      using hp by (simp add: query_absent)
    then show ?thesis using False by (simp add: Read_result Let_def)
  qed
qed

lemma Read_stored_Some:
  assumes ok: "cache_ok s" and st: "stored s name = Some (ty, d)"
  shows "\<exists>rest. fst (Read s name buf) = (ERROR_SUCCESS, d @ rest, ty)"
proof -
  let ?p = "fst (SplitName name)" and ?n = "snd (SplitName name)"
  let ?h = "fst (OpenKey s ?p False)" and ?s1 = "snd (OpenKey s ?p False)"
  let ?B = "if length buf < 256 then resize 256 buf else buf"
  have ex: "lookup_key (hkcu s) (split_path (m_registryRoot s @ ?p)) \<noteq> None"
    using st by (auto simp: stored_kv kv_def split: option.splits)
  have nn: "?h \<noteq> nullptr"
    using OpenKey_open_null[OF ok, of ?p] ex by blast
  have hp: "handle_path ?s1 ?h = Inr (split_path (m_registryRoot s @ ?p))"
    using ok nn by (rule OpenKey_handle_ok)
  have kvs: "kv (hkcu ?s1) (split_path (m_registryRoot s @ ?p)) ?n = Some (ty, d)"
    using st by (simp add: stored_kv hkcu_OpenKey_open)
  note q = query_present[OF hp kvs]
  show ?thesis
  proof (cases "length ?B < length d")
    case True
    have "fst (Read s name buf) = (ERROR_SUCCESS, d @ drop (length d) (resize (length d) (?B[0 := 0])), ty)"
      using nn True by (simp add: Read_result Let_def q)
    then show ?thesis by blast
  next
    case False
    have "fst (Read s name buf) = (ERROR_SUCCESS, d @ drop (length d) (?B[0 := 0]), ty)"
      using nn False by (simp add: Read_result Let_def q)
    then show ?thesis by blast
  qed
qed

lemma apply_write_eq:
  assumes "\<not> m_bCloseHandle s"
  shows "apply_write s name v =
     snd (SaveValueToReg (snd (OpenKey s (fst (SplitName name)) True))
            (fst (OpenKey s (fst (SplitName name)) True)) (snd (SplitName name)) v)"
proof -
  let ?p = "fst (SplitName name)"
  let ?s1 = "snd (OpenKey s ?p True)"
  let ?s2 = "snd (SaveValueToReg ?s1 (fst (OpenKey s ?p True)) (snd (SplitName name)) v)"
  have "same_control s ?s2"
    by (blast intro: same_control_trans sc_OpenKey sc_SaveValueToReg)
  then have "\<not> m_bCloseHandle ?s2" using assms by (simp add: same_control_def)
  then show ?thesis
    by (simp add: apply_write_def Let_def case_prod_beta CloseKey_keep)
qed

lemma apply_write_kv:
  assumes ok: "cache_ok s" and nc: "\<not> m_bCloseHandle s"
  shows "kv (hkcu (apply_write s name v)) q m =
     (if q = split_path (m_registryRoot s @ fst (SplitName name)) \<and> m = snd (SplitName name)
         \<and> reg_payload v \<noteq> None
      then reg_payload v else kv (hkcu s) q m)"
proof -
  let ?p = "fst (SplitName name)"
  have nn: "fst (OpenKey s ?p True) \<noteq> nullptr" using ok by (rule OpenKey_create_nonnull)
  have hp: "handle_path (snd (OpenKey s ?p True)) (fst (OpenKey s ?p True))
        = Inr (split_path (m_registryRoot s @ ?p))"
    using ok nn by (rule OpenKey_handle_ok)
  show ?thesis
    by (auto simp add: apply_write_eq[OF nc] SaveValueToReg_kv[OF hp] kv_OpenKey)
qed

lemma cache_ok_apply_write:
  assumes ok: "cache_ok s" and nc: "\<not> m_bCloseHandle s"
  shows "cache_ok (apply_write s name v)"
  by (simp add: apply_write_eq[OF nc] cache_ok_SaveValueToReg cache_ok_OpenKey ok)

lemma sc_root_apply_write: "m_registryRoot (apply_write s name v) = m_registryRoot s"
  using sc_apply_write[of s name v] by (simp add: same_control_def)

lemma apply_write_stored:
  assumes ok: "cache_ok s" and nc: "\<not> m_bCloseHandle s" and pl: "reg_payload v \<noteq> None"
  shows "stored (apply_write s name v) name = reg_payload v"
  using pl by (simp add: stored_kv sc_root_apply_write apply_write_kv[OF ok nc])

lemma cache_ok_IOHandler:
  "cache_ok (IOHandler env path)"
  by (simp add: IOHandler_def SetRegRootKey_def RegCreateKeyEx_def new_handle_def RegCloseKey_def
      Let_def cache_ok_def)

lemma sys0_cache_ok: "cache_ok sys0"
  unfolding sys0_def by (rule cache_ok_IOHandler)

section \<open>Initialising an option from the store (InitOption)\<close>

lemma AddOption_value:
  "GetType v \<noteq> VT_NULL \<Longrightarrow>
   AddOption m name v = (OPT_OK, m\<lparr>m_optionsMap := AList.update name v (m_optionsMap m)\<rparr>)"
  by (simp add: AddOption_def COptionsMgr_AddOption_def)

lemma InitOption_serializing:
  assumes "m_serializing m" "GetType v \<noteq> VT_NULL"
  shows "InitOption m name v =
     (let r = Read (m_pIOHandler m) name (replicate 256 0);
          m2 = m\<lparr>m_optionsMap := AList.update name v (m_optionsMap m), m_pIOHandler := snd r\<rparr>
      in if fst (fst r) = ERROR_SUCCESS
         then LoadValueFromBuf m2 name (snd (snd (fst r))) (fst (snd (fst r))) v
         else (OPT_OK, m2))"
  using assms by (simp add: InitOption_def AddOption_value Let_def case_prod_beta)

lemma Get_update: "COptionsMgr_Get (AList.update name v om) name = v"
  by (simp add: COptionsMgr_Get_def update_conv')

lemma Set_opt_same_type:
  "GetType v = GetType w \<Longrightarrow>
   Set_opt (m\<lparr>m_optionsMap := AList.update name w om, m_pIOHandler := s\<rparr>) name v
     = (OPT_OK, m\<lparr>m_optionsMap := AList.update name v (AList.update name w om), m_pIOHandler := s\<rparr>)"
  by (simp add: Set_opt_def COptionsMgr_Set_def update_conv')

lemma InitOption_absent:
  assumes "m_serializing m" "cache_ok (m_pIOHandler m)" "stored (m_pIOHandler m) name = None"
    "GetType v \<noteq> VT_NULL"
  shows "InitOption m name v =
     (OPT_OK, m\<lparr>m_optionsMap := AList.update name v (m_optionsMap m),
                m_pIOHandler := snd (Read (m_pIOHandler m) name (replicate 256 0))\<rparr>)"
  using Read_stored_None[OF assms(2,3), of "replicate 256 0"]
  by (simp add: InitOption_serializing[OF assms(1,4)] Let_def)

lemma InitOption_dword:
  assumes "m_serializing m" "cache_ok (m_pIOHandler m)"
    "stored (m_pIOHandler m) name = Some (REG_DWORD, dword_bytes d @ rest)"
  shows "InitOption m name (VInt d0) =
     (OPT_OK, m\<lparr>m_optionsMap := AList.update name (VInt d) (AList.update name (VInt d0) (m_optionsMap m)),
                m_pIOHandler := snd (Read (m_pIOHandler m) name (replicate 256 0))\<rparr>)"
proof -
  obtain more where r: "fst (Read (m_pIOHandler m) name (replicate 256 0))
      = (ERROR_SUCCESS, (dword_bytes d @ rest) @ more, REG_DWORD)"
    using Read_stored_Some[OF assms(2,3)] by blast
  have b: "bytes_dword ((dword_bytes d @ rest) @ more) = d"
    using bytes_dword_bytes[of d "rest @ more"] by simp
  show ?thesis
    by (simp add: InitOption_serializing[OF assms(1)] Let_def r LoadValueFromBuf_def b
        Set_opt_same_type del: append_assoc)
qed

lemma InitOption_other_tag:
  assumes "m_serializing m" "cache_ok (m_pIOHandler m)"
    "stored (m_pIOHandler m) name = Some (ty, data)" "ty \<noteq> REG_DWORD"
  shows "InitOption m name (VInt d0) =
     (OPT_WRONG_TYPE, m\<lparr>m_optionsMap := AList.update name (VInt d0) (m_optionsMap m),
                m_pIOHandler := snd (Read (m_pIOHandler m) name (replicate 256 0))\<rparr>)"
proof -
  obtain more where r: "fst (Read (m_pIOHandler m) name (replicate 256 0))
      = (ERROR_SUCCESS, data @ more, ty)"
    using Read_stored_Some[OF assms(2,3)] by blast
  show ?thesis
    using assms(4) by (simp add: InitOption_serializing[OF assms(1)] Let_def r LoadValueFromBuf_def)
qed

lemma cache_ok_Read:
  assumes "cache_ok s" "\<not> m_bCloseHandle s"
  shows "cache_ok (snd (Read s name buf))"
  using sc_OpenKey[of s "fst (SplitName name)" False] assms
  by (simp add: Read_state CloseKey_keep same_control_def cache_ok_OpenKey)

lemma stored_Read: "stored (snd (Read s name buf)) n = stored s n"
  using sc_Read[of s name buf] by (simp add: stored_kv hkcu_Read same_control_def)

lemma WaitForQueueFlush_idle: "m_dwQueueCount s = 0 \<Longrightarrow> WaitForQueueFlush s = Some (OPT_OK, s)"
  by (simp add: WaitForQueueFlush_def wait_queue.simps)

lemma mgr0_simps:
  "m_serializing mgr0" "m_pIOHandler mgr0 = sys0" "m_optionsMap mgr0 = []"
  by (simp_all add: mgr0_def CRegOptionsMgr_new_def sys0_def)

lemma split_width: "SplitName ''Settings/Width'' = (''Settings'', ''Width'')"
  by (simp add: SplitName_def)

lemma hkcu_sys0:
  "hkcu sys0 = RegKey [] [(''Software'', RegKey [] [(''Thingamahoochie'', RegKey [] [(''WinMerge'', RegKey [] [])])])]"
  by (simp add: sys0_def IOHandler_def SetRegRootKey_def RegCreateKeyEx_def new_handle_def
      RegCloseKey_def env0_def Let_def winmerge_root_def split_path_def backslash_def)

lemma stored_sys0_width: "stored sys0 ''Settings/Width'' = None"
  by (simp add: stored_kv split_width split_settings hkcu_sys0 kv_def)

lemma stored_sys_str: "stored sys_str ''Settings/Width'' = Some (REG_SZ, c_str ''wide'')"
proof -
  have "stored sys_str ''Settings/Width'' = reg_payload (VString ''wide'')"
    unfolding sys_str_def using sys0_cache_ok sys0_inv
    by (intro apply_write_stored) (simp_all add: reg_payload_def)
  then show ?thesis by (simp add: reg_payload_def sizeof_tchar_def c_str_def)
qed

lemma stored_sys_int: "stored sys_int ''Settings/Width'' = Some (REG_DWORD, dword_bytes 250 @ [])"
proof -
  have "stored sys_int ''Settings/Width'' = reg_payload (VInt 250)"
    unfolding sys_int_def using sys0_cache_ok sys0_inv
    by (intro apply_write_stored) (simp_all add: reg_payload_def)
  then show ?thesis by (simp add: reg_payload_def)
qed

lemma cache_ok_sys_str: "cache_ok sys_str"
  unfolding sys_str_def using sys0_cache_ok sys0_inv by (intro cache_ok_apply_write) simp_all

lemma cache_ok_sys_int: "cache_ok sys_int"
  unfolding sys_int_def using sys0_cache_ok sys0_inv by (intro cache_ok_apply_write) simp_all

lemma key_handle_ok_cache: "cache_ok s \<Longrightarrow> key_handle_ok s name"
  by (auto simp: cache_ok_def key_handle_ok_def split: option.splits dest: map_of_SomeD)

lemma OpenKey_open_local:
  assumes kh: "key_handle_ok s name"
  shows "(fst (OpenKey s (fst (SplitName name)) False) = nullptr
            \<and> lookup_key (hkcu s) (split_path (m_registryRoot s @ fst (SplitName name))) = None)
       \<or> (fst (OpenKey s (fst (SplitName name)) False) \<noteq> nullptr
            \<and> handle_path (snd (OpenKey s (fst (SplitName name)) False))
                 (fst (OpenKey s (fst (SplitName name)) False))
               = Inr (split_path (m_registryRoot s @ fst (SplitName name))))"
proof (cases "map_of (m_hKeys s) (fst (SplitName name))")
  case (Some h)
  with kh have hp: "handle_path s h = Inr (split_path (m_registryRoot s @ fst (SplitName name)))"
    by (simp add: key_handle_ok_def)
  then have "h \<noteq> nullptr" by (auto simp: handle_path_def split: if_splits)
  with Some hp show ?thesis by (simp add: OpenKey_hit)
next
  case None
  show ?thesis
  proof (cases "lookup_key (hkcu s) (split_path (m_registryRoot s @ fst (SplitName name)))")
    case None': None
    with None show ?thesis by (simp add: OpenKey_miss_open_absent)
  next
    case (Some k)
    with None show ?thesis
      by (simp add: OpenKey_miss_open_present handle_path_def nullptr_def)
  qed
qed

lemma Read_local_None:
  assumes kh: "key_handle_ok s name" and st: "stored s name = None"
  shows "fst (fst (Read s name buf)) = ERROR_FILE_NOT_FOUND"
proof -
  let ?p = "fst (SplitName name)" and ?n = "snd (SplitName name)"
  let ?h = "fst (OpenKey s ?p False)" and ?s1 = "snd (OpenKey s ?p False)"
  show ?thesis
  proof (cases "?h = nullptr")
    case True
    then show ?thesis by (simp add: Read_result Let_def)
  next
    case False
    have hp: "handle_path ?s1 ?h = Inr (split_path (m_registryRoot s @ ?p))"
      using OpenKey_open_local[OF kh] False by blast
    have "key_value ?s1 (split_path (m_registryRoot s @ ?p)) ?n = None"
      using st by (simp add: key_value_kv stored_kv hkcu_OpenKey_open)
    then have "\<And>b sz. RegQueryValueEx ?s1 ?h ?n b sz = (ERROR_FILE_NOT_FOUND, 0, b, sz)"
      using hp by (simp add: query_absent)
    then show ?thesis using False by (simp add: Read_result Let_def)
  qed
qed

lemma Read_local_Some:
  assumes kh: "key_handle_ok s name" and st: "stored s name = Some (ty, d)"
  shows "\<exists>rest. fst (Read s name buf) = (ERROR_SUCCESS, d @ rest, ty)"
proof -
  let ?p = "fst (SplitName name)" and ?n = "snd (SplitName name)"
  let ?h = "fst (OpenKey s ?p False)" and ?s1 = "snd (OpenKey s ?p False)"
  let ?B = "if length buf < 256 then resize 256 buf else buf"
  have ex: "lookup_key (hkcu s) (split_path (m_registryRoot s @ ?p)) \<noteq> None"
    using st by (auto simp: stored_kv kv_def split: option.splits)
  have nn: "?h \<noteq> nullptr" and hp: "handle_path ?s1 ?h = Inr (split_path (m_registryRoot s @ ?p))"
    using OpenKey_open_local[OF kh] ex by blast+
  have kvs: "kv (hkcu ?s1) (split_path (m_registryRoot s @ ?p)) ?n = Some (ty, d)"
    using st by (simp add: stored_kv hkcu_OpenKey_open)
  note q = query_present[OF hp kvs]
  show ?thesis
  proof (cases "length ?B < length d")
    case True
    have "fst (Read s name buf) = (ERROR_SUCCESS, d @ drop (length d) (resize (length d) (?B[0 := 0])), ty)"
      using nn True by (simp add: Read_result Let_def q)
    then show ?thesis by blast
  next
    case False
    have "fst (Read s name buf) = (ERROR_SUCCESS, d @ drop (length d) (?B[0 := 0]), ty)"
      using nn False by (simp add: Read_result Let_def q)
    then show ?thesis by blast
  qed
qed

lemma Read_stale:
  assumes "key_handle_stale s name"
  shows "fst (fst (Read s name buf)) \<noteq> ERROR_SUCCESS"
proof -
  from assms obtain h e where c: "map_of (m_hKeys s) (fst (SplitName name)) = Some h"
    and hp: "handle_path s h = Inl e"
    by (auto simp: key_handle_stale_def split: option.splits sum.splits)
  have "\<And>b sz. fst (RegQueryValueEx s h (snd (SplitName name)) b sz)
            \<in> {ERROR_FILE_NOT_FOUND, ERROR_INVALID_HANDLE, ERROR_KEY_DELETED}"
    using handle_path_Inl[OF hp] by (auto simp: query_fails[OF hp])
  with c show ?thesis by (rule Read_not_success)
qed

lemma InitOption_no_value:
  assumes "m_serializing m" "fst (fst (Read (m_pIOHandler m) name (replicate 256 0))) \<noteq> ERROR_SUCCESS"
    "GetType v \<noteq> VT_NULL"
  shows "InitOption m name v =
     (OPT_OK, m\<lparr>m_optionsMap := AList.update name v (m_optionsMap m),
                m_pIOHandler := snd (Read (m_pIOHandler m) name (replicate 256 0))\<rparr>)"
  using assms(2) by (simp add: InitOption_serializing[OF assms(1,3)] Let_def)

lemma InitOption_local_dword:
  assumes "m_serializing m" "key_handle_ok (m_pIOHandler m) name"
    "stored (m_pIOHandler m) name = Some (REG_DWORD, dword_bytes d @ rest)"
  shows "InitOption m name (VInt d0) =
     (OPT_OK, m\<lparr>m_optionsMap := AList.update name (VInt d) (AList.update name (VInt d0) (m_optionsMap m)),
                m_pIOHandler := snd (Read (m_pIOHandler m) name (replicate 256 0))\<rparr>)"
proof -
  obtain more where r: "fst (Read (m_pIOHandler m) name (replicate 256 0))
      = (ERROR_SUCCESS, (dword_bytes d @ rest) @ more, REG_DWORD)"
    using Read_local_Some[OF assms(2,3)] by blast
  have b: "bytes_dword ((dword_bytes d @ rest) @ more) = d"
    using bytes_dword_bytes[of d "rest @ more"] by simp
  show ?thesis
    by (simp add: InitOption_serializing[OF assms(1)] Let_def r LoadValueFromBuf_def b
        Set_opt_same_type del: append_assoc)
qed

lemma InitOption_local_other_tag:
  assumes "m_serializing m" "key_handle_ok (m_pIOHandler m) name"
    "stored (m_pIOHandler m) name = Some (ty, data)" "ty \<noteq> REG_DWORD"
  shows "InitOption m name (VInt d0) =
     (OPT_WRONG_TYPE, m\<lparr>m_optionsMap := AList.update name (VInt d0) (m_optionsMap m),
                m_pIOHandler := snd (Read (m_pIOHandler m) name (replicate 256 0))\<rparr>)"
proof -
  obtain more where r: "fst (Read (m_pIOHandler m) name (replicate 256 0))
      = (ERROR_SUCCESS, data @ more, ty)"
    using Read_local_Some[OF assms(2,3)] by blast
  show ?thesis
    using assms(4) by (simp add: InitOption_serializing[OF assms(1)] Let_def r LoadValueFromBuf_def)
qed

lemma sys_stale_facts:
  "stored sys_stale name_ab = Some (REG_DWORD, dword_bytes 250 @ [])"
  "key_handle_stale sys_stale name_ab"
  by (simp_all add: sys_stale_def stored_def key_value_def key_handle_stale_def
      apply_write_def SplitName_def sys0_def IOHandler_def SetRegRootKey_def
      RegCreateKeyEx_def new_handle_def RegCloseKey_def env0_def Let_def winmerge_root_def split_path_def
      backslash_def OpenKey_def SaveValueToReg_def CloseKey_def RegSetValueEx_def handle_path_def
      set_value_def dword_bytes_def REG_DWORD_def nullptr_def
      Remove_def wait_queue.simps RegDeleteTree_def RegDeleteValue_def clear_key_def name_ab_def
      name_ab2_def)

text \<open>
  C4, as stated, fails in two places. With a string stored under the name,
  \<^verbatim>\<open>InitOption\<close> with the Int default 100 returns WrongType and the option table keeps
  100: the stored value does not replace the default. With nothing stored, \<^verbatim>\<open>InitOption\<close>
  returns Ok and writes nothing to the store: after a flush, \<^verbatim>\<open>Read\<close> of the name still
  reports that the value is not found.
\<close>

theorem InitOption_int_counterexample:
  "stored sys_str ''Settings/Width'' = Some (REG_SZ, c_str ''wide'')
 \<and> fst (InitOption mgr_str ''Settings/Width'' (VInt 100)) = OPT_WRONG_TYPE
 \<and> COptionsMgr_Get (m_optionsMap (snd (InitOption mgr_str ''Settings/Width'' (VInt 100)))) ''Settings/Width''
     = VInt 100
 \<and> stored sys0 ''Settings/Width'' = None
 \<and> fst (InitOption mgr0 ''Settings/Width'' (VInt 100)) = OPT_OK
 \<and> WaitForQueueFlush (m_pIOHandler (snd (InitOption mgr0 ''Settings/Width'' (VInt 100))))
     = Some (OPT_OK, m_pIOHandler (snd (InitOption mgr0 ''Settings/Width'' (VInt 100))))
 \<and> fst (fst (Read (m_pIOHandler (snd (InitOption mgr0 ''Settings/Width'' (VInt 100))))
            ''Settings/Width'' [])) = ERROR_FILE_NOT_FOUND"
proof -
  have ms: "m_serializing mgr_str" "m_pIOHandler mgr_str = sys_str"
    by (simp_all add: mgr_str_def mgr0_simps)
  have a: "InitOption mgr_str ''Settings/Width'' (VInt 100) =
     (OPT_WRONG_TYPE, mgr_str\<lparr>m_optionsMap := AList.update ''Settings/Width'' (VInt 100) (m_optionsMap mgr_str),
                m_pIOHandler := snd (Read (m_pIOHandler mgr_str) ''Settings/Width'' (replicate 256 0))\<rparr>)"
    by (rule InitOption_other_tag[where ty = REG_SZ and data = "c_str ''wide''"])
      (simp_all add: ms cache_ok_sys_str stored_sys_str REG_SZ_def REG_DWORD_def)
  let ?sR = "snd (Read sys0 ''Settings/Width'' (replicate 256 0))"
  have b: "InitOption mgr0 ''Settings/Width'' (VInt 100) =
     (OPT_OK, mgr0\<lparr>m_optionsMap := AList.update ''Settings/Width'' (VInt 100) (m_optionsMap mgr0),
                m_pIOHandler := snd (Read (m_pIOHandler mgr0) ''Settings/Width'' (replicate 256 0))\<rparr>)"
    by (rule InitOption_absent) (simp_all add: mgr0_simps sys0_cache_ok stored_sys0_width)
  have h: "m_pIOHandler (snd (InitOption mgr0 ''Settings/Width'' (VInt 100))) = ?sR"
    by (simp add: b mgr0_simps)
  have z: "m_dwQueueCount ?sR = 0"
    using sc_Read[of sys0 "''Settings/Width''" "replicate 256 0"] sys0_control
    by (simp add: same_control_def)
  have ok: "cache_ok ?sR" using sys0_cache_ok sys0_inv by (intro cache_ok_Read) simp_all
  have r: "fst (fst (Read ?sR ''Settings/Width'' [])) = ERROR_FILE_NOT_FOUND"
    using ok by (rule Read_stored_None) (simp add: stored_Read stored_sys0_width)
  show ?thesis
    by (simp add: stored_sys_str stored_sys0_width a Get_update h r WaitForQueueFlush_idle[OF z]) (simp add: b)
qed

text \<open>
  C4, amended: \<^verbatim>\<open>InitOption\<close> with an Int default, while serializing. On a handler
  whose cached handle for the key of the name, if there is one, is open on that key:
  when the store holds no value for the name, the option is added with the default and
  Ok is returned; when the store holds a value tagged \<^verbatim>\<open>REG_DWORD\<close>, Ok is returned and
  the stored word replaces the default in the option table; when the store holds a value
  with another tag, WrongType is returned and the option table keeps the default. On a
  handler whose cached handle for the key is stale (it is no longer open on a key: the
  key it was opened on has been deleted, or the handle has been closed), Ok is returned
  and the option table keeps the default, whatever the store holds. A cache without
  stale handles has the handle of every name open on its key.
\<close>

theorem InitOption_int:
  assumes "m_serializing m"
  shows "(key_handle_ok (m_pIOHandler m) name \<and> stored (m_pIOHandler m) name = None \<longrightarrow>
            fst (InitOption m name (VInt d0)) = OPT_OK
          \<and> COptionsMgr_Get (m_optionsMap (snd (InitOption m name (VInt d0)))) name = VInt d0)
       \<and> (key_handle_ok (m_pIOHandler m) name
            \<and> stored (m_pIOHandler m) name = Some (REG_DWORD, dword_bytes d @ rest) \<longrightarrow>
            fst (InitOption m name (VInt d0)) = OPT_OK
          \<and> COptionsMgr_Get (m_optionsMap (snd (InitOption m name (VInt d0)))) name = VInt d)
       \<and> (key_handle_ok (m_pIOHandler m) name
            \<and> stored (m_pIOHandler m) name = Some (ty, data) \<and> ty \<noteq> REG_DWORD \<longrightarrow>
            fst (InitOption m name (VInt d0)) = OPT_WRONG_TYPE
          \<and> COptionsMgr_Get (m_optionsMap (snd (InitOption m name (VInt d0)))) name = VInt d0)
       \<and> (key_handle_stale (m_pIOHandler m) name \<longrightarrow>
            fst (InitOption m name (VInt d0)) = OPT_OK
          \<and> COptionsMgr_Get (m_optionsMap (snd (InitOption m name (VInt d0)))) name = VInt d0)
       \<and> (cache_ok (m_pIOHandler m) \<longrightarrow> key_handle_ok (m_pIOHandler m) name)"
proof (intro conjI impI)
  assume a: "key_handle_ok (m_pIOHandler m) name \<and> stored (m_pIOHandler m) name = None"
  then have "fst (fst (Read (m_pIOHandler m) name (replicate 256 0))) \<noteq> ERROR_SUCCESS"
    using Read_local_None[of "m_pIOHandler m" name "replicate 256 0"] by simp
  from InitOption_no_value[OF assms this, of "VInt d0"]
  show "fst (InitOption m name (VInt d0)) = OPT_OK"
    and "COptionsMgr_Get (m_optionsMap (snd (InitOption m name (VInt d0)))) name = VInt d0"
    by (simp_all add: Get_update)
next
  assume a: "key_handle_ok (m_pIOHandler m) name
            \<and> stored (m_pIOHandler m) name = Some (REG_DWORD, dword_bytes d @ rest)"
  from InitOption_local_dword[OF assms a[THEN conjunct1] a[THEN conjunct2], of d0]
  show "fst (InitOption m name (VInt d0)) = OPT_OK"
    and "COptionsMgr_Get (m_optionsMap (snd (InitOption m name (VInt d0)))) name = VInt d"
    by (simp_all add: Get_update)
next
  assume a: "key_handle_ok (m_pIOHandler m) name
            \<and> stored (m_pIOHandler m) name = Some (ty, data) \<and> ty \<noteq> REG_DWORD"
  from InitOption_local_other_tag[OF assms a[THEN conjunct1] a[THEN conjunct2, THEN conjunct1]
      a[THEN conjunct2, THEN conjunct2], of d0]
  show "fst (InitOption m name (VInt d0)) = OPT_WRONG_TYPE"
    and "COptionsMgr_Get (m_optionsMap (snd (InitOption m name (VInt d0)))) name = VInt d0"
    by (simp_all add: Get_update)
next
  assume "key_handle_stale (m_pIOHandler m) name"
  then have "fst (fst (Read (m_pIOHandler m) name (replicate 256 0))) \<noteq> ERROR_SUCCESS"
    by (rule Read_stale)
  from InitOption_no_value[OF assms this, of "VInt d0"]
  show "fst (InitOption m name (VInt d0)) = OPT_OK"
    and "COptionsMgr_Get (m_optionsMap (snd (InitOption m name (VInt d0)))) name = VInt d0"
    by (simp_all add: Get_update)
next
  assume "cache_ok (m_pIOHandler m)"
  then show "key_handle_ok (m_pIOHandler m) name" by (rule key_handle_ok_cache)
qed

theorem InitOption_int_witness:
  "fst (InitOption mgr0 ''Settings/Width'' (VInt 100)) = OPT_OK
 \<and> COptionsMgr_Get (m_optionsMap (snd (InitOption mgr0 ''Settings/Width'' (VInt 100)))) ''Settings/Width''
     = VInt 100
 \<and> fst (InitOption mgr_int ''Settings/Width'' (VInt 100)) = OPT_OK
 \<and> COptionsMgr_Get (m_optionsMap (snd (InitOption mgr_int ''Settings/Width'' (VInt 100)))) ''Settings/Width''
     = VInt 250
 \<and> fst (InitOption mgr_str ''Settings/Width'' (VInt 100)) = OPT_WRONG_TYPE
 \<and> COptionsMgr_Get (m_optionsMap (snd (InitOption mgr_str ''Settings/Width'' (VInt 100)))) ''Settings/Width''
     = VInt 100
 \<and> stored sys_stale name_ab = Some (REG_DWORD, dword_bytes 250 @ [])
 \<and> fst (InitOption mgr_stale name_ab (VInt 100)) = OPT_OK
 \<and> COptionsMgr_Get (m_optionsMap (snd (InitOption mgr_stale name_ab (VInt 100)))) name_ab = VInt 100"
proof -
  have m0: "m_serializing mgr0" "key_handle_ok (m_pIOHandler mgr0) ''Settings/Width''"
    by (simp_all add: mgr0_simps sys0_cache_ok key_handle_ok_cache)
  have mi: "m_serializing mgr_int" "key_handle_ok (m_pIOHandler mgr_int) ''Settings/Width''"
    by (simp_all add: mgr_int_def mgr0_simps cache_ok_sys_int key_handle_ok_cache)
  have ms: "m_serializing mgr_str" "key_handle_ok (m_pIOHandler mgr_str) ''Settings/Width''"
    by (simp_all add: mgr_str_def mgr0_simps cache_ok_sys_str key_handle_ok_cache)
  have mt: "m_serializing mgr_stale" "key_handle_stale (m_pIOHandler mgr_stale) name_ab"
    by (simp_all add: mgr_stale_def mgr0_simps sys_stale_facts)
  have s0: "stored (m_pIOHandler mgr0) ''Settings/Width'' = None"
    by (simp add: mgr0_simps stored_sys0_width)
  have si: "stored (m_pIOHandler mgr_int) ''Settings/Width'' = Some (REG_DWORD, dword_bytes 250 @ [])"
    by (simp add: mgr_int_def stored_sys_int)
  have ss: "stored (m_pIOHandler mgr_str) ''Settings/Width'' = Some (REG_SZ, c_str ''wide'')
            \<and> REG_SZ \<noteq> REG_DWORD"
    by (simp add: mgr_str_def stored_sys_str REG_SZ_def REG_DWORD_def)
  note t0 = InitOption_int[OF m0(1), where name = "''Settings/Width''" and ?d0.0 = 100]
  note ti = InitOption_int[OF mi(1), where name = "''Settings/Width''" and ?d0.0 = 100 and d = 250
      and rest = "[]"]
  note ts = InitOption_int[OF ms(1), where name = "''Settings/Width''" and ?d0.0 = 100 and ty = REG_SZ
      and data = "c_str ''wide''"]
  note tt = InitOption_int[OF mt(1), where name = name_ab and ?d0.0 = 100]
  have a: "fst (InitOption mgr0 ''Settings/Width'' (VInt 100)) = OPT_OK
     \<and> COptionsMgr_Get (m_optionsMap (snd (InitOption mgr0 ''Settings/Width'' (VInt 100)))) ''Settings/Width''
         = VInt 100"
    using t0[THEN conjunct1] m0(2) s0 by blast
  have b: "fst (InitOption mgr_int ''Settings/Width'' (VInt 100)) = OPT_OK
     \<and> COptionsMgr_Get (m_optionsMap (snd (InitOption mgr_int ''Settings/Width'' (VInt 100)))) ''Settings/Width''
         = VInt 250"
    using ti[THEN conjunct2, THEN conjunct1] mi(2) si by blast
  have c: "fst (InitOption mgr_str ''Settings/Width'' (VInt 100)) = OPT_WRONG_TYPE
     \<and> COptionsMgr_Get (m_optionsMap (snd (InitOption mgr_str ''Settings/Width'' (VInt 100)))) ''Settings/Width''
         = VInt 100"
    using ts[THEN conjunct2, THEN conjunct2, THEN conjunct1] ms(2) ss by blast
  have d: "fst (InitOption mgr_stale name_ab (VInt 100)) = OPT_OK
     \<and> COptionsMgr_Get (m_optionsMap (snd (InitOption mgr_stale name_ab (VInt 100)))) name_ab = VInt 100"
    using tt[THEN conjunct2, THEN conjunct2, THEN conjunct2, THEN conjunct1] mt(2) by blast
  from a b c d sys_stale_facts(1) show ?thesis by blast
qed

section \<open>Removing an option or a subtree (RemoveOption)\<close>

lemma starts_with_slash:
  "(take (length strPath) key = strPath \<and> length key > length strPath \<and> key ! length strPath = CHR ''/'')
   \<longleftrightarrow> prefix (strPath @ ''/'') key"
proof
  assume a: "take (length strPath) key = strPath \<and> length key > length strPath
      \<and> key ! length strPath = CHR ''/''"
  then have "take (Suc (length strPath)) key = strPath @ ''/''"
    by (simp add: take_Suc_conv_app_nth)
  then show "prefix (strPath @ ''/'') key"
    by (metis take_is_prefix)
next
  assume "prefix (strPath @ ''/'') key"
  then obtain r where "key = strPath @ ''/'' @ r" by (auto simp: prefix_def)
  then show "take (length strPath) key = strPath \<and> length key > length strPath
      \<and> key ! length strPath = CHR ''/''"
    by (simp add: nth_append)
qed

lemma RemoveOption_loop_filter:
  "RemoveOption_loop strPath om = filter (\<lambda>(key, v). \<not> prefix (strPath @ ''/'') key) om"
  by (induction strPath om rule: RemoveOption_loop.induct) (simp_all add: starts_with_slash)

lemma map_of_filter_key:
  "map_of (filter (\<lambda>(key, v). \<not> P key) om) k = (if P k then None else map_of om k)"
  by (induction om) auto

lemma map_of_delete_key:
  "map_of (AList.delete name om) k = (if k = name then None else map_of om k)"
  by (simp add: delete_conv')

lemma COptionsMgr_RemoveOption_map:
  "snd (COptionsMgr_RemoveOption om name) = AList.delete name om"
  by (simp add: COptionsMgr_RemoveOption_def map_of_eq_None_iff delete_id)

lemma cache_ok_worker_step:
  assumes "cache_ok s" "\<not> m_bCloseHandle s"
  shows "cache_ok (worker_step s)"
proof (cases "worker s")
  case (W_Apply n v)
  have "cache_ok (apply_write s n v)" using assms by (rule cache_ok_apply_write)
  then have "cache_ok ((apply_write s n v)\<lparr>worker := W_Decrement\<rparr>)"
    by (rule cache_ok_frame) simp_all
  then show ?thesis using W_Apply by (simp add: worker_step_Apply)
next
  case W_GetMessage
  show ?thesis
  proof (cases "msg_queue s")
    case Nil
    then show ?thesis using W_GetMessage assms by (simp add: worker_step_def)
  next
    case (Cons a q)
    have "cache_ok (s\<lparr>msg_queue := q, worker := x\<rparr>)" for x
      using assms(1) by (rule cache_ok_frame) simp_all
    then show ?thesis using W_GetMessage Cons by (cases a) (simp_all add: worker_step_def)
  qed
next
  case W_Decrement
  have "cache_ok (s\<lparr>m_dwQueueCount := m_dwQueueCount s - 1, worker := W_GetMessage\<rparr>)"
    using assms(1) by (rule cache_ok_frame) simp_all
  then show ?thesis using W_Decrement by (simp add: worker_step_def)
next
  case W_Exited
  then show ?thesis using assms by (simp add: worker_step_def)
qed

lemma wait_queue_cache_ok:
  assumes w: "wait_queue s = Some s1" and "cache_ok s" "\<not> m_bCloseHandle s"
  shows "cache_ok s1 \<and> \<not> m_bCloseHandle s1 \<and> m_registryRoot s1 = m_registryRoot s"
proof -
  have "(cache_ok s1 \<and> \<not> m_bCloseHandle s1 \<and> m_registryRoot s1 = m_registryRoot s)
        \<and> m_dwQueueCount s1 = 0"
    using w
  proof (rule wait_queue_invariant)
    show "cache_ok s \<and> \<not> m_bCloseHandle s \<and> m_registryRoot s = m_registryRoot s"
      using assms by simp
  next
    fix x :: sys
    assume "cache_ok x \<and> \<not> m_bCloseHandle x \<and> m_registryRoot x = m_registryRoot s"
    then show "cache_ok (worker_step x) \<and> \<not> m_bCloseHandle (worker_step x)
        \<and> m_registryRoot (worker_step x) = m_registryRoot s"
      by (simp add: cache_ok_worker_step sc_worker_step_root)
  qed
  then show ?thesis by simp
qed

lemma RegDeleteTree_clears:
  assumes "handle_path s h = Inr p"
  shows "lookup_key (hkcu (snd (RegDeleteTree s h))) p = Some (RegKey [] [])"
proof -
  obtain k where k: "lookup_key (hkcu s) p = Some k"
    using handle_path_live[OF assms] by blast
  show ?thesis
    using assms by (simp add: RegDeleteTree_def lookup_modify_same[OF k] clear_key_def)
qed

lemma inv_same_control:
  assumes "same_control s s'" "queue_inv s \<and> worker_alive s \<and> \<not> m_bCloseHandle s"
  shows "queue_inv s' \<and> worker_alive s' \<and> \<not> m_bCloseHandle s'"
  using assms by (simp add: same_control_def queue_inv_def worker_alive_def in_flight_def)

lemma sys_int_inv: "queue_inv sys_int \<and> worker_alive sys_int \<and> \<not> m_bCloseHandle sys_int"
  unfolding sys_int_def using sc_apply_write sys0_inv by (rule inv_same_control)

lemma sys_int_root: "m_registryRoot sys_int = m_registryRoot sys0"
  by (simp add: sys_int_def sc_root_apply_write)

text \<open>
  C10: \<^verbatim>\<open>RemoveOption\<close> on a handler in a state as after construction (the count agrees
  with the writes in flight, the writer thread runs, handles stay cached) returns. For a
  name whose value-name part is empty it returns Ok; the option table afterwards is the
  old one without the entries whose name starts with the key path followed by a slash,
  every other entry is as before and in its place; the handler has run \<^verbatim>\<open>Remove\<close>, which
  calls \<^verbatim>\<open>RegDeleteTree\<close> on the handle of the key path, and, when the cache holds no stale
  handle, the key of that path is left with no value and no subkey. For a name with a
  value-name part the table afterwards is the old one without that one option.
\<close>

theorem RemoveOption_subtree:
  assumes "queue_inv (m_pIOHandler m)" and "worker_alive (m_pIOHandler m)"
    and "\<not> m_bCloseHandle (m_pIOHandler m)"
  shows "\<exists>s1 s'. wait_queue (m_pIOHandler m) = Some s1
      \<and> Remove (m_pIOHandler m) name = Some (OPT_OK, s')
      \<and> (snd (SplitName name) = [] \<longrightarrow>
            RemoveOption m name =
              Some (OPT_OK,
                m\<lparr>m_optionsMap :=
                      filter (\<lambda>(key, v). \<not> prefix (fst (SplitName name) @ ''/'') key) (m_optionsMap m),
                  m_pIOHandler := s'\<rparr>)
          \<and> (\<forall>key. map_of (filter (\<lambda>(key, v). \<not> prefix (fst (SplitName name) @ ''/'') key)
                              (m_optionsMap m)) key
                    = (if prefix (fst (SplitName name) @ ''/'') key then None
                       else map_of (m_optionsMap m) key))
          \<and> s' = snd (RegDeleteTree (snd (OpenKey s1 (fst (SplitName name)) True))
                         (fst (OpenKey s1 (fst (SplitName name)) True)))
          \<and> (cache_ok (m_pIOHandler m) \<longrightarrow>
                lookup_key (hkcu s')
                  (split_path (m_registryRoot (m_pIOHandler m) @ fst (SplitName name)))
                  = Some (RegKey [] [])))
      \<and> (snd (SplitName name) \<noteq> [] \<longrightarrow>
            RemoveOption m name =
              Some (fst (COptionsMgr_RemoveOption (m_optionsMap m) name),
                m\<lparr>m_optionsMap := AList.delete name (m_optionsMap m), m_pIOHandler := s'\<rparr>)
          \<and> (\<forall>key. map_of (AList.delete name (m_optionsMap m)) key
                    = (if key = name then None else map_of (m_optionsMap m) key)))"
proof -
  let ?s = "m_pIOHandler m"
  let ?p = "fst (SplitName name)" and ?n = "snd (SplitName name)"
  obtain s1 where w: "wait_queue ?s = Some s1" and nc1: "\<not> m_bCloseHandle s1"
    using wait_queue_returns[OF assms(1,2)] assms(3) by auto
  let ?h = "fst (OpenKey s1 ?p True)" and ?s2 = "snd (OpenKey s1 ?p True)"
  let ?s' = "if ?n = [] then snd (RegDeleteTree ?s2 ?h) else snd (RegDeleteValue ?s2 ?h ?n)"
  have rem: "Remove ?s name = Some (OPT_OK, ?s')"
    by (rule Remove_unfold[OF w nc1])
  have key: "?n = [] \<Longrightarrow> RemoveOption m name =
        Some (OPT_OK, m\<lparr>m_optionsMap :=
                filter (\<lambda>(key, v). \<not> prefix (?p @ ''/'') key) (m_optionsMap m),
              m_pIOHandler := ?s'\<rparr>)"
    by (simp add: RemoveOption_def Let_def case_prod_beta rem RemoveOption_loop_filter)
  have val: "?n \<noteq> [] \<Longrightarrow> RemoveOption m name =
        Some (fst (COptionsMgr_RemoveOption (m_optionsMap m) name),
              m\<lparr>m_optionsMap := AList.delete name (m_optionsMap m), m_pIOHandler := ?s'\<rparr>)"
    by (simp add: RemoveOption_def Let_def case_prod_beta rem COptionsMgr_RemoveOption_map)
  have clr: "lookup_key (hkcu (snd (RegDeleteTree ?s2 ?h))) (split_path (m_registryRoot ?s @ ?p))
        = Some (RegKey [] [])" if ok: "cache_ok ?s"
  proof -
    have c1: "cache_ok s1" and r1: "m_registryRoot s1 = m_registryRoot ?s"
      using wait_queue_cache_ok[OF w ok assms(3)] by simp_all
    have nn: "?h \<noteq> nullptr" using c1 by (rule OpenKey_create_nonnull)
    have "handle_path ?s2 ?h = Inr (split_path (m_registryRoot s1 @ ?p))"
      using c1 nn by (rule OpenKey_handle_ok)
    then show ?thesis using r1 by (simp add: RegDeleteTree_clears)
  qed
  show ?thesis
    apply (rule exI[of _ s1])
    apply (rule exI[of _ ?s'])
    using w rem key val clr
    by (simp add: map_of_filter_key map_of_delete_key)
qed


theorem RemoveOption_subtree_witness:
  "(\<exists>s'. RemoveOption mgr_opts ''Settings/'' =
           Some (OPT_OK, mgr_opts\<lparr>m_optionsMap := [(''Other/X'', VInt 1), (''SettingsX/Y'', VInt 3)],
                                 m_pIOHandler := s'\<rparr>)
        \<and> lookup_key (hkcu s') [''Software'', ''Thingamahoochie'', ''WinMerge'', ''Settings'']
            = Some (RegKey [] []))
 \<and> (\<exists>s'. RemoveOption mgr_opts ''Settings/Width'' =
           Some (OPT_OK,
             mgr_opts\<lparr>m_optionsMap :=
                        [(''Other/X'', VInt 1), (''Settings/Height'', VInt 2), (''SettingsX/Y'', VInt 3)],
                      m_pIOHandler := s'\<rparr>))"
proof -
  have h: "m_pIOHandler mgr_opts = sys_int"
    and om: "m_optionsMap mgr_opts = [(''Other/X'', VInt 1), (''Settings/Height'', VInt 2),
        (''Settings/Width'', VInt 250), (''SettingsX/Y'', VInt 3)]"
    by (simp_all add: mgr_opts_def mgr_int_def)
  have i: "queue_inv (m_pIOHandler mgr_opts)" "worker_alive (m_pIOHandler mgr_opts)"
    "\<not> m_bCloseHandle (m_pIOHandler mgr_opts)"
    using sys_int_inv by (simp_all add: h)
  have sp: "SplitName ''Settings/'' = (''Settings'', [])" by (simp add: SplitName_def)
  have c: "cache_ok (m_pIOHandler mgr_opts)" by (simp add: h cache_ok_sys_int)
  have r: "split_path (m_registryRoot (m_pIOHandler mgr_opts) @ ''Settings'')
      = [''Software'', ''Thingamahoochie'', ''WinMerge'', ''Settings'']"
    by (simp add: h sys_int_root split_settings)
  have a: "\<exists>s'. RemoveOption mgr_opts ''Settings/'' =
           Some (OPT_OK, mgr_opts\<lparr>m_optionsMap := [(''Other/X'', VInt 1), (''SettingsX/Y'', VInt 3)],
                                 m_pIOHandler := s'\<rparr>)
        \<and> lookup_key (hkcu s') [''Software'', ''Thingamahoochie'', ''WinMerge'', ''Settings'']
            = Some (RegKey [] [])"
    using RemoveOption_subtree[OF i, of "''Settings/''"] c
    by (auto simp add: sp om r)
  have b: "\<exists>s'. RemoveOption mgr_opts ''Settings/Width'' =
           Some (OPT_OK,
             mgr_opts\<lparr>m_optionsMap :=
                        [(''Other/X'', VInt 1), (''Settings/Height'', VInt 2), (''SettingsX/Y'', VInt 3)],
                      m_pIOHandler := s'\<rparr>)"
    using RemoveOption_subtree[OF i, of "''Settings/Width''"]
    by (auto simp add: split_width om COptionsMgr_RemoveOption_def)
  from a b show ?thesis by blast
qed

section \<open>The flush before a delete (Remove)\<close>

subsection \<open>The wait loop returns the flushed state\<close>

lemma OpenKey_ctl:
  "OpenKey (s\<lparr>m_dwQueueCount := c, msg_queue := q, worker := w\<rparr>) p b
     = (fst (OpenKey s p b), (snd (OpenKey s p b))\<lparr>m_dwQueueCount := c, msg_queue := q, worker := w\<rparr>)"
  by (simp add: OpenKey_def RegCreateKeyEx_def RegOpenKeyEx_def new_handle_def Let_def
      split: option.splits)

lemma handle_path_ctl:
  "handle_path (s\<lparr>m_dwQueueCount := c, msg_queue := q, worker := w\<rparr>) h = handle_path s h"
  by (simp add: handle_path_def split: option.splits hentry.splits)

lemma RegSetValueEx_ctl:
  "RegSetValueEx (s\<lparr>m_dwQueueCount := c, msg_queue := q, worker := w\<rparr>) h n ty d cb
     = (fst (RegSetValueEx s h n ty d cb),
        (snd (RegSetValueEx s h n ty d cb))\<lparr>m_dwQueueCount := c, msg_queue := q, worker := w\<rparr>)"
  by (simp add: RegSetValueEx_def handle_path_ctl split: sum.splits)

lemma SaveValueToReg_ctl:
  "SaveValueToReg (s\<lparr>m_dwQueueCount := c, msg_queue := q, worker := w\<rparr>) h n v
     = (fst (SaveValueToReg s h n v),
        (snd (SaveValueToReg s h n v))\<lparr>m_dwQueueCount := c, msg_queue := q, worker := w\<rparr>)"
  by (simp add: SaveValueToReg_def RegSetValueEx_ctl Let_def case_prod_beta)

lemma CloseKey_ctl:
  "CloseKey (s\<lparr>m_dwQueueCount := c, msg_queue := q, worker := w\<rparr>) h p
     = (CloseKey s h p)\<lparr>m_dwQueueCount := c, msg_queue := q, worker := w\<rparr>"
  by (simp add: CloseKey_def RegCloseKey_def Let_def)

lemma apply_write_ctl:
  "apply_write (s\<lparr>m_dwQueueCount := c, msg_queue := q, worker := w\<rparr>) n v
     = (apply_write s n v)\<lparr>m_dwQueueCount := c, msg_queue := q, worker := w\<rparr>"
  by (simp add: apply_write_def Let_def case_prod_beta OpenKey_ctl SaveValueToReg_ctl CloseKey_ctl)

lemma fold_apply_write_ctl:
  "fold (\<lambda>w s'. apply_write s' (fst w) (snd w)) ws (s\<lparr>m_dwQueueCount := c, msg_queue := q, worker := w\<rparr>)
     = (fold (\<lambda>w s'. apply_write s' (fst w) (snd w)) ws s)\<lparr>m_dwQueueCount := c, msg_queue := q, worker := w\<rparr>"
  by (induction ws arbitrary: s) (simp_all add: apply_write_ctl)

lemma ctl_expand:
  "s = s\<lparr>m_dwQueueCount := m_dwQueueCount s, msg_queue := msg_queue s, worker := worker s\<rparr>"
  by simp

lemma flushed_ctl:
  "flushed (s\<lparr>m_dwQueueCount := c, msg_queue := q, worker := w\<rparr>)
     = (fold (\<lambda>x s'. apply_write s' (fst x) (snd x))
          (pending_writes (s\<lparr>m_dwQueueCount := c, msg_queue := q, worker := w\<rparr>)) s)
        \<lparr>m_dwQueueCount := 0, msg_queue := [], worker := W_GetMessage\<rparr>"
  by (simp add: flushed_def fold_apply_write_ctl)

lemma flushed_worker_step:
  assumes "worker_alive s"
  shows "flushed (worker_step s) = flushed s"
proof (cases "worker s")
  case W_GetMessage
  show ?thesis
  proof (cases "msg_queue s")
    case Nil
    with W_GetMessage show ?thesis by (simp add: worker_step_def)
  next
    case (Cons m q)
    show ?thesis
    proof (cases m)
      case WM_QUIT
      with Cons assms show ?thesis by (simp add: worker_alive_def)
    next
      case (WM_USER n v)
      have "worker_step s = s\<lparr>m_dwQueueCount := m_dwQueueCount s, msg_queue := q, worker := W_Apply n v\<rparr>"
        using W_GetMessage Cons WM_USER by (simp add: worker_step_def)
      then show ?thesis
        using W_GetMessage Cons WM_USER
        by (simp only: flushed_ctl) (simp add: flushed_def pending_writes_def)
    qed
  qed
next
  case (W_Apply n v)
  have sc: "same_control s (apply_write s n v)" by (rule sc_apply_write)
  have ws: "worker_step s = (apply_write s n v)\<lparr>m_dwQueueCount := m_dwQueueCount (apply_write s n v),
      msg_queue := msg_queue (apply_write s n v), worker := W_Decrement\<rparr>"
    using W_Apply by (simp add: worker_step_Apply)
  show ?thesis
    using W_Apply sc
    by (simp only: ws flushed_ctl) (simp add: flushed_def pending_writes_def same_control_def)
next
  case W_Decrement
  have ws: "worker_step s = s\<lparr>m_dwQueueCount := m_dwQueueCount s - 1, msg_queue := msg_queue s,
      worker := W_GetMessage\<rparr>"
    using W_Decrement by (simp add: worker_step_def)
  show ?thesis
    using W_Decrement
    by (simp only: ws flushed_ctl) (simp add: flushed_def pending_writes_def)
next
  case W_Exited
  then show ?thesis by (simp add: worker_step_def)
qed

lemma flushed_idle:
  assumes "m_dwQueueCount s = 0" "msg_queue s = []" "worker s = W_GetMessage"
  shows "flushed s = s"
proof -
  have "flushed s = s\<lparr>m_dwQueueCount := m_dwQueueCount s, msg_queue := msg_queue s, worker := worker s\<rparr>"
    unfolding assms by (simp add: flushed_def pending_writes_def assms)
  then show ?thesis by simp
qed

lemma wait_queue_flushed:
  assumes "queue_inv s" "worker_alive s"
  shows "wait_queue s = Some (flushed s)"
  using assms
proof (induction "work_left s" arbitrary: s rule: less_induct)
  case less
  show ?case
  proof (cases "m_dwQueueCount s = 0")
    case True
    have "msg_queue s = [] \<and> worker s = W_GetMessage"
      using less.prems True by (rule idle_when_zero)
    then have "flushed s = s" using True by (intro flushed_idle) simp_all
    with True show ?thesis by (subst wait_queue.simps) simp
  next
    case False
    have lt: "work_left (worker_step s) < work_left s"
      using less.prems False by (rule work_left_step)
    have "wait_queue (worker_step s) = Some (flushed (worker_step s))"
      using less.hyps[OF lt] less.prems queue_inv_worker_step worker_alive_worker_step by blast
    with False show ?thesis
      by (subst wait_queue.simps) (simp add: flushed_worker_step[OF less.prems(2)])
  qed
qed

subsection \<open>What the delete leaves in the hive\<close>

lemma kv_clear:
  "kv (modify_key clear_key k p) q n = (if prefix p q then None else kv k q n)"
proof (induction p arbitrary: k q)
  case Nil
  then show ?case by (simp add: clear_key_def kv_empty)
next
  case (Cons c cs)
  show ?case
  proof (cases "map_of (rk_subkeys k) c")
    case None
    then show ?thesis by (cases q) (auto simp: kv_Cons)
  next
    case (Some sub)
    show ?thesis
    proof (cases q)
      case Nil
      then show ?thesis by (simp add: Some kv_Nil)
    next
      case (Cons d ds)
      then show ?thesis
        using Cons.IH[of sub ds] Some
        by (cases "d = c") (simp_all add: update_conv' kv_Cons)
    qed
  qed
qed

lemma flushed_props:
  assumes "queue_inv s" "worker_alive s"
  shows "m_dwQueueCount (flushed s) = 0 \<and> msg_queue (flushed s) = [] \<and> worker (flushed s) = W_GetMessage
       \<and> queue_inv (flushed s) \<and> worker_alive (flushed s)
       \<and> m_registryRoot (flushed s) = m_registryRoot s \<and> m_bCloseHandle (flushed s) = m_bCloseHandle s"
  using wait_queue_returns[OF assms] wait_queue_flushed[OF assms]
  by (auto simp: flushed_def)

lemma flushed_cache_ok:
  assumes "queue_inv s" "worker_alive s" "cache_ok s" "\<not> m_bCloseHandle s"
  shows "cache_ok (flushed s)"
  using wait_queue_cache_ok[OF wait_queue_flushed[OF assms(1,2)] assms(3,4)] by simp

lemma Remove_flushed:
  assumes "queue_inv s" "worker_alive s" "\<not> m_bCloseHandle s"
  shows "Remove s name =
     Some (OPT_OK,
       if snd (SplitName name) = []
       then snd (RegDeleteTree (snd (OpenKey (flushed s) (fst (SplitName name)) True))
                   (fst (OpenKey (flushed s) (fst (SplitName name)) True)))
       else snd (RegDeleteValue (snd (OpenKey (flushed s) (fst (SplitName name)) True))
                   (fst (OpenKey (flushed s) (fst (SplitName name)) True)) (snd (SplitName name))))"
proof (rule Remove_unfold)
  show "wait_queue s = Some (flushed s)" using assms(1,2) by (rule wait_queue_flushed)
  show "\<not> m_bCloseHandle (flushed s)" using flushed_props[OF assms(1,2)] assms(3) by simp
qed

lemma delete_kv:
  assumes ok: "cache_ok s1"
  shows "kv (hkcu (if snd (SplitName name) = []
       then snd (RegDeleteTree (snd (OpenKey s1 (fst (SplitName name)) True))
                   (fst (OpenKey s1 (fst (SplitName name)) True)))
       else snd (RegDeleteValue (snd (OpenKey s1 (fst (SplitName name)) True))
                   (fst (OpenKey s1 (fst (SplitName name)) True)) (snd (SplitName name))))) q n
     = (if removed_by (m_registryRoot s1) name q n then None else kv (hkcu s1) q n)"
proof -
  let ?p = "fst (SplitName name)" and ?vn = "snd (SplitName name)"
  let ?h = "fst (OpenKey s1 ?p True)" and ?s2 = "snd (OpenKey s1 ?p True)"
  let ?P = "split_path (m_registryRoot s1 @ ?p)"
  have nn: "?h \<noteq> nullptr" using ok by (rule OpenKey_create_nonnull)
  have hp: "handle_path ?s2 ?h = Inr ?P" using ok nn by (rule OpenKey_handle_ok)
  have k2: "\<And>q n. kv (hkcu ?s2) q n = kv (hkcu s1) q n" by (rule kv_OpenKey)
  show ?thesis
  proof (cases "?vn = []")
    case True
    have "hkcu (snd (RegDeleteTree ?s2 ?h)) = modify_key clear_key (hkcu ?s2) ?P"
      using hp by (simp add: RegDeleteTree_def)
    then show ?thesis using True by (simp add: kv_clear k2 removed_by_def)
  next
    case False
    show ?thesis
    proof (cases "key_value ?s2 ?P ?vn")
      case None
      then have "snd (RegDeleteValue ?s2 ?h ?vn) = ?s2" using hp by (simp add: RegDeleteValue_def)
      moreover have "kv (hkcu s1) ?P ?vn = None" using None by (simp add: key_value_kv k2)
      ultimately show ?thesis using False by (auto simp: k2 removed_by_def)
    next
      case (Some v)
      then have "hkcu (snd (RegDeleteValue ?s2 ?h ?vn)) = modify_key (delete_value ?vn) (hkcu ?s2) ?P"
        using hp by (simp add: RegDeleteValue_def)
      then show ?thesis using False by (simp add: kv_delete_value k2 removed_by_def)
    qed
  qed
qed

lemma removed_by_self:
  "removed_by root name (split_path (root @ fst (SplitName name))) (snd (SplitName name))"
  by (simp add: removed_by_def)

lemma root_locked:
  "m_registryRoot (if c then snd (RegDeleteTree (snd (OpenKey s1 p True)) h)
       else snd (RegDeleteValue (snd (OpenKey s1 p True)) h' vn)) = m_registryRoot s1"
  using sc_OpenKey[of s1 p True] sc_RegDeleteTree[of "snd (OpenKey s1 p True)" h]
    sc_RegDeleteValue[of "snd (OpenKey s1 p True)" h' vn]
  by (simp add: same_control_def)

lemma pending_writes_WriteAsync:
  assumes "worker s \<noteq> W_Exited" "length (msg_queue s) < msg_limit s"
  shows "pending_writes (WriteAsync s name value) = pending_writes s @ [(name, value)]"
proof -
  have "msg_writes (q @ [WM_USER name value]) = msg_writes q @ [(name, value)]" for q
    by (induction q rule: msg_writes.induct) simp_all
  then show ?thesis using assms by (simp add: WriteAsync_ok pending_writes_def)
qed

lemma Remove_then_Read_general:
  assumes inv: "queue_inv s" and alive: "worker_alive s" and nc: "\<not> m_bCloseHandle s"
  shows "\<exists>s'. Remove s name = Some (OPT_OK, s')
          \<and> wait_queue s = Some (flushed s)
          \<and> s' = (if snd (SplitName name) = []
                   then snd (RegDeleteTree (snd (OpenKey (flushed s) (fst (SplitName name)) True))
                               (fst (OpenKey (flushed s) (fst (SplitName name)) True)))
                   else snd (RegDeleteValue (snd (OpenKey (flushed s) (fst (SplitName name)) True))
                               (fst (OpenKey (flushed s) (fst (SplitName name)) True))
                               (snd (SplitName name))))
          \<and> m_dwQueueCount s' = 0 \<and> msg_queue s' = [] \<and> worker s' = W_GetMessage
          \<and> worker_step s' = s'
          \<and> fst (fst (Read s' name buf)) \<noteq> ERROR_SUCCESS
          \<and> (cache_ok s \<longrightarrow>
                stored s' name = None
              \<and> (\<forall>q n. kv (hkcu s') q n
                    = (if removed_by (m_registryRoot s) name q n then None
                       else kv (hkcu (flushed s)) q n)))"
proof -
  let ?s' = "if snd (SplitName name) = []
                   then snd (RegDeleteTree (snd (OpenKey (flushed s) (fst (SplitName name)) True))
                               (fst (OpenKey (flushed s) (fst (SplitName name)) True)))
                   else snd (RegDeleteValue (snd (OpenKey (flushed s) (fst (SplitName name)) True))
                               (fst (OpenKey (flushed s) (fst (SplitName name)) True))
                               (snd (SplitName name)))"
  have rem: "Remove s name = Some (OPT_OK, ?s')" using assms by (rule Remove_flushed)
  have w: "wait_queue s = Some (flushed s)" using inv alive by (rule wait_queue_flushed)
  from Remove_then_Read_aux[OF assms, of name buf] rem
  have ctl: "m_dwQueueCount ?s' = 0 \<and> msg_queue ?s' = [] \<and> worker ?s' = W_GetMessage
          \<and> worker_step ?s' = ?s' \<and> fst (fst (Read ?s' name buf)) \<noteq> ERROR_SUCCESS"
    by auto
  have root: "m_registryRoot (flushed s) = m_registryRoot s"
    using flushed_props[OF inv alive] by simp
  have c: "cache_ok s \<longrightarrow>
                stored ?s' name = None
              \<and> (\<forall>q n. kv (hkcu ?s') q n
                    = (if removed_by (m_registryRoot s) name q n then None
                       else kv (hkcu (flushed s)) q n))"
  proof
    assume "cache_ok s"
    then have ok: "cache_ok (flushed s)" using inv alive nc by (intro flushed_cache_ok)
    have k: "\<And>q n. kv (hkcu ?s') q n
          = (if removed_by (m_registryRoot s) name q n then None else kv (hkcu (flushed s)) q n)"
      using delete_kv[OF ok, of name] root by simp
    have r: "m_registryRoot ?s' = m_registryRoot s"
      using root_locked[of "snd (SplitName name) = []" "flushed s"] root by simp
    have "stored ?s' name = None"
      unfolding stored_kv r k using removed_by_self[of "m_registryRoot s" name] by simp
    with k show "stored ?s' name = None
              \<and> (\<forall>q n. kv (hkcu ?s') q n
                    = (if removed_by (m_registryRoot s) name q n then None
                       else kv (hkcu (flushed s)) q n))"
      by blast
  qed
  from rem w ctl c show ?thesis by blast
qed

lemma Remove_locked_eq:
  "Remove s name = (case wait_queue s of None \<Rightarrow> None | Some s1 \<Rightarrow> Some (OPT_OK, Remove_locked s1 name))"
  by (simp add: Remove_def Remove_locked_def Let_def case_prod_beta split: option.splits)

lemma Remove_locked_stale:
  assumes "key_handle_stale s1 name"
  shows "Remove_locked s1 name = CloseKey s1 (fst (OpenKey s1 (fst (SplitName name)) True)) (fst (SplitName name))"
proof -
  from assms obtain h e where c: "map_of (m_hKeys s1) (fst (SplitName name)) = Some h"
    and hp: "handle_path s1 h = Inl e"
    by (auto simp: key_handle_stale_def split: option.splits sum.splits)
  show ?thesis
    by (simp add: Remove_locked_def Let_def case_prod_beta OpenKey_hit[OF c] RegDeleteTree_def
        RegDeleteValue_def hp)
qed

lemma root_Remove_locked: "m_registryRoot (Remove_locked s1 name) = m_registryRoot s1"
proof -
  let ?p = "fst (SplitName name)"
  let ?h = "fst (OpenKey s1 ?p True)" and ?s2 = "snd (OpenKey s1 ?p True)"
  let ?s3 = "if snd (SplitName name) = [] then snd (RegDeleteTree ?s2 ?h)
             else snd (RegDeleteValue ?s2 ?h (snd (SplitName name)))"
  have "same_control s1 ?s2" by (rule sc_OpenKey)
  moreover have "same_control ?s2 ?s3" by (simp add: sc_RegDeleteTree sc_RegDeleteValue)
  moreover have "same_control ?s3 (CloseKey ?s3 ?h ?p)" by (rule sc_CloseKey)
  ultimately have "same_control s1 (CloseKey ?s3 ?h ?p)" by (blast intro: same_control_trans)
  then show ?thesis by (simp add: Remove_locked_def Let_def case_prod_beta same_control_def)
qed

lemmas example_defs = apply_write_def SplitName_def sys0_def IOHandler_def SetRegRootKey_def
  RegCreateKeyEx_def new_handle_def RegCloseKey_def env0_def Let_def winmerge_root_def split_path_def
  backslash_def OpenKey_def SaveValueToReg_def CloseKey_def RegSetValueEx_def handle_path_def set_value_def
  dword_bytes_def REG_DWORD_def nullptr_def sys_int_def sys_two_def sys_pending_def
  WriteAsync_def PostThreadMessage_def

lemma sys_pending_inv:
  "queue_inv sys_pending \<and> worker_alive sys_pending \<and> \<not> m_bCloseHandle sys_pending
   \<and> cache_ok sys_pending"
proof -
  have i: "queue_inv sys_int \<and> worker_alive sys_int \<and> \<not> m_bCloseHandle sys_int"
    by (rule sys_int_inv)
  have sc: "same_control sys_int sys_two" unfolding sys_two_def by (rule sc_apply_write)
  have i2: "queue_inv sys_two \<and> worker_alive sys_two \<and> \<not> m_bCloseHandle sys_two"
    using i sc by (simp add: queue_inv_def worker_alive_def in_flight_def same_control_def)
  have c2: "cache_ok sys_two"
    unfolding sys_two_def using cache_ok_sys_int i by (intro cache_ok_apply_write) simp_all
  have c: "cache_ok sys_pending"
    unfolding sys_pending_def using c2 by (rule cache_ok_frame) (simp_all add: WriteAsync_cases)
  have q: "queue_inv sys_pending"
    unfolding sys_pending_def using i2 by (intro queue_inv_WriteAsync) simp
  have a: "worker_alive sys_pending"
    unfolding sys_pending_def using i2 by (intro worker_alive_WriteAsync) simp
  have n: "\<not> m_bCloseHandle sys_pending"
    unfolding sys_pending_def using i2 by (simp add: WriteAsync_cases)
  from q a n c show ?thesis by blast
qed

lemma stored_flushed_example:
  "stored (flushed (WriteAsync sys_pending ''Settings/Width'' (VInt 7))) ''Other/Y''
     = Some (REG_DWORD, dword_bytes 5)"
  "stored (flushed (WriteAsync sys_pending ''Settings/Width'' (VInt 7))) ''Settings/Height''
     = Some (REG_DWORD, dword_bytes 2)"
  "stored (flushed (WriteAsync sys_pending ''Settings/Width'' (VInt 7))) ''Settings/Width''
     = Some (REG_DWORD, dword_bytes 7)"
  "stored sys_pending ''Settings/Width'' = Some (REG_DWORD, dword_bytes 250)"
  "stored sys_pending ''Other/Y'' = None"
  by (simp_all add: stored_def key_value_def flushed_def pending_writes_def example_defs)

lemma pending_example:
  "pending_writes (WriteAsync sys_pending ''Settings/Width'' (VInt 7))
     = [(''Other/Y'', VInt 5), (''Settings/Width'', VInt 7)]"
  by (simp add: pending_writes_def example_defs)

lemma root_sys_pending: "m_registryRoot sys_pending = m_registryRoot sys0"
  by (simp add: sys_pending_def sys_two_def sys_int_def sc_WriteAsync_root sc_root_apply_write)

text \<open>
  C1: \<^verbatim>\<open>Remove(n)\<close> first waits until the count of pending writes is zero, and only
  then opens the key and deletes the value or the subtree. In a state where the count
  agrees with the writes in flight, the writer thread runs, and handles stay cached (as
  after construction), take any write to \<open>n\<close> posted just before (it is the last of the
  pending writes). The wait returns, and it returns the state in which the writer thread
  has applied every pending write, in order, and counted it off: no write is dropped and
  none is left. \<^verbatim>\<open>Remove(n)\<close> returns Ok with the state that its part under the critical
  section makes of that flushed state; it leaves no write in flight (the count is zero,
  the queue is empty and the writer thread waits, so its further steps change nothing),
  and a \<^verbatim>\<open>Read(n)\<close> that follows does not succeed: it observes no value, so no value from
  before the delete. When no cached handle is stale, nothing is stored under \<open>n\<close>
  afterwards, and the hive is the hive of the flushed state without the one value (for a
  name that ends with the separator: without the key of the path and all below it);
  every other value, the pending writes to other names included, is there. When the
  handle cached for the key of \<open>n\<close> is stale, the delete fails and \<^verbatim>\<open>Remove\<close> leaves the
  flushed state as it is; the \<^verbatim>\<open>Read\<close>, through the same handle, does not succeed either.
\<close>

theorem Remove_then_Read:
  assumes "queue_inv s" and "worker_alive s" and "\<not> m_bCloseHandle s"
  shows "\<exists>s'. Remove (WriteAsync s name value) name = Some (OPT_OK, s')
     \<and> wait_queue (WriteAsync s name value) = Some (flushed (WriteAsync s name value))
     \<and> s' = Remove_locked (flushed (WriteAsync s name value)) name
     \<and> (worker s \<noteq> W_Exited \<and> length (msg_queue s) < msg_limit s \<longrightarrow>
          pending_writes (WriteAsync s name value) = pending_writes s @ [(name, value)])
     \<and> m_dwQueueCount s' = 0 \<and> msg_queue s' = [] \<and> worker s' = W_GetMessage
     \<and> worker_step s' = s' \<and> m_registryRoot s' = m_registryRoot s
     \<and> fst (fst (Read s' name buf)) \<noteq> ERROR_SUCCESS
     \<and> (cache_ok s \<longrightarrow>
           stored s' name = None
         \<and> (\<forall>q n. kv (hkcu s') q n
               = (if removed_by (m_registryRoot s) name q n then None
                  else kv (hkcu (flushed (WriteAsync s name value))) q n)))
     \<and> (key_handle_stale (flushed (WriteAsync s name value)) name \<longrightarrow>
           s' = flushed (WriteAsync s name value))"
proof -
  let ?t = "WriteAsync s name value"
  have inv: "queue_inv ?t" using assms(1) by (rule queue_inv_WriteAsync)
  have alive: "worker_alive ?t" using assms(2) by (rule worker_alive_WriteAsync)
  have nc: "\<not> m_bCloseHandle ?t" using assms(3) by (simp add: WriteAsync_cases)
  have root: "m_registryRoot ?t = m_registryRoot s" by (rule sc_WriteAsync_root)
  have ok: "cache_ok s \<Longrightarrow> cache_ok ?t"
    by (erule cache_ok_frame) (simp_all add: WriteAsync_cases)
  have w: "wait_queue ?t = Some (flushed ?t)" using inv alive by (rule wait_queue_flushed)
  have ncf: "\<not> m_bCloseHandle (flushed ?t)" using flushed_props[OF inv alive] nc by simp
  from Remove_then_Read_general[OF inv alive nc, of name buf]
  obtain s' where rem: "Remove ?t name = Some (OPT_OK, s')"
    and ctl: "m_dwQueueCount s' = 0 \<and> msg_queue s' = [] \<and> worker s' = W_GetMessage
          \<and> worker_step s' = s' \<and> fst (fst (Read s' name buf)) \<noteq> ERROR_SUCCESS"
    and st: "cache_ok ?t \<longrightarrow>
                stored s' name = None
              \<and> (\<forall>q n. kv (hkcu s') q n
                    = (if removed_by (m_registryRoot ?t) name q n then None
                       else kv (hkcu (flushed ?t)) q n))"
    by blast
  have loc: "s' = Remove_locked (flushed ?t) name"
    using rem w by (simp add: Remove_locked_eq)
  have p: "worker s \<noteq> W_Exited \<and> length (msg_queue s) < msg_limit s \<longrightarrow>
          pending_writes ?t = pending_writes s @ [(name, value)]"
    by (simp add: pending_writes_WriteAsync)
  have st': "cache_ok s \<longrightarrow>
           stored s' name = None
         \<and> (\<forall>q n. kv (hkcu s') q n
               = (if removed_by (m_registryRoot s) name q n then None
                  else kv (hkcu (flushed ?t)) q n))"
    using st ok root by simp
  have stale: "key_handle_stale (flushed ?t) name \<longrightarrow> s' = flushed ?t"
  proof
    assume "key_handle_stale (flushed ?t) name"
    then show "s' = flushed ?t"
      unfolding loc using ncf by (simp add: Remove_locked_stale CloseKey_keep)
  qed
  have r': "m_registryRoot s' = m_registryRoot s"
    unfolding loc using flushed_props[OF inv alive] root by (simp add: root_Remove_locked)
  from rem w loc p ctl r' st' stale show ?thesis by blast
qed


theorem Remove_then_Read_witness:
  "(\<exists>s'. Remove (WriteAsync sys_pending ''Settings/Width'' (VInt 7)) ''Settings/Width'' = Some (OPT_OK, s')
        \<and> s' = Remove_locked (flushed (WriteAsync sys_pending ''Settings/Width'' (VInt 7))) ''Settings/Width''
        \<and> m_dwQueueCount s' = 0 \<and> msg_queue s' = []
        \<and> fst (fst (Read s' ''Settings/Width'' [])) \<noteq> ERROR_SUCCESS
        \<and> stored s' ''Settings/Width'' = None
        \<and> stored s' ''Other/Y'' = Some (REG_DWORD, dword_bytes 5)
        \<and> stored s' ''Settings/Height'' = Some (REG_DWORD, dword_bytes 2))
 \<and> pending_writes (WriteAsync sys_pending ''Settings/Width'' (VInt 7))
     = [(''Other/Y'', VInt 5), (''Settings/Width'', VInt 7)]
 \<and> stored sys_pending ''Settings/Width'' = Some (REG_DWORD, dword_bytes 250)
 \<and> stored sys_pending ''Other/Y'' = None"
proof -
  let ?t = "WriteAsync sys_pending ''Settings/Width'' (VInt 7)"
  have h: "queue_inv sys_pending" "worker_alive sys_pending" "\<not> m_bCloseHandle sys_pending"
    and ok: "cache_ok sys_pending"
    using sys_pending_inv by simp_all
  from Remove_then_Read[OF h, of "''Settings/Width''" "VInt 7" "[]"] ok
  obtain s' where rem: "Remove ?t ''Settings/Width'' = Some (OPT_OK, s')"
    and loc: "s' = Remove_locked (flushed ?t) ''Settings/Width''"
    and ctl: "m_dwQueueCount s' = 0" "msg_queue s' = []"
    and root: "m_registryRoot s' = m_registryRoot sys_pending"
    and rd: "fst (fst (Read s' ''Settings/Width'' [])) \<noteq> ERROR_SUCCESS"
    and gone: "stored s' ''Settings/Width'' = None"
    and k: "\<And>q n. kv (hkcu s') q n
               = (if removed_by (m_registryRoot sys_pending) ''Settings/Width'' q n then None
                  else kv (hkcu (flushed ?t)) q n)"
    by blast
  have rf: "m_registryRoot (flushed ?t) = m_registryRoot sys_pending"
    using flushed_props[of ?t] h by (simp add: queue_inv_WriteAsync worker_alive_WriteAsync sc_WriteAsync_root)
  have y: "stored s' ''Other/Y'' = Some (REG_DWORD, dword_bytes 5)"
    using stored_flushed_example(1)
    by (simp add: stored_kv root rf k removed_by_def SplitName_def)
  have ht: "stored s' ''Settings/Height'' = Some (REG_DWORD, dword_bytes 2)"
    using stored_flushed_example(2)
    by (simp add: stored_kv root rf k removed_by_def SplitName_def)
  from rem loc ctl rd gone y ht pending_example stored_flushed_example(4,5) show ?thesis by blast
qed

section \<open>Export of the values that are not options (ExportAllUnloadedValues)\<close>

subsection \<open>The file after the walk\<close>

lemma writes_refl: "writes [] ini ini"
  by (simp add: writes_def)

lemma writes_trans:
  assumes "writes r1 a b" "writes r2 b c"
  shows "writes (r1 @ r2) a c"
  using assms by (auto simp: writes_def)

lemma WPPS_other [simp]:
  "sec \<noteq> a \<Longrightarrow> WritePrivateProfileString a k v ini sec = ini sec"
  by (simp add: WritePrivateProfileString_def)

lemma WPPS_set [simp]:
  "WritePrivateProfileString a k (Some v) ini a = AList.update k v (ini a)"
  by (simp add: WritePrivateProfileString_def)

lemma WPPS_del [simp]:
  "WritePrivateProfileString a k None ini a = AList.delete k (ini a)"
  by (simp add: WritePrivateProfileString_def)

lemma map_of_update_delete:
  "map_of (AList.update k v (AList.delete k al)) = (map_of al)(k \<mapsto> v)"
  by (simp add: update_conv' delete_conv')

lemma step_writes:
  "writes (export_record esc om strName dwType data1) ini
     (if map_of om strName = None then
        (if dwType = REG_DWORD then
           WritePrivateProfileString ''WinMerge.TypeInfo'' strName (Some ''int'')
             (WritePrivateProfileString ''WinMerge'' strName
                (Some (to_str (sint (bytes_dword data1)))) ini)
         else if dwType = REG_SZ then
           WritePrivateProfileString ''WinMerge.TypeInfo'' strName (Some ''string'')
             (WritePrivateProfileString ''WinMerge'' strName
                (Some (esc (tcs_read data1)))
                (WritePrivateProfileString ''WinMerge'' strName None ini))
         else ini)
      else ini)"
  by (auto simp: writes_def export_record_def update_conv' delete_conv' distinct_update
      distinct_delete map_add_def fun_eq_iff)

lemma export_values_writes:
  "export_values esc strPath om vals data ini = (OPT_OK, ini') \<Longrightarrow>
   writes (value_records esc strPath om vals data) ini ini'"
proof (induction vals arbitrary: data ini)
  case Nil
  then show ?case by (simp add: writes_refl)
next
  case (Cons v vs)
  obtain result n ty data1 where e: "enum_value v data = (result, n, ty, data1)"
    by (cases "enum_value v data") auto
  show ?case
  proof (cases "result = ERROR_SUCCESS")
    case False
    with Cons.prems e show ?thesis by simp
  next
    case True
    let ?ini1 = "(if map_of om (strPath @ ''/'' @ n) = None then
        (if ty = REG_DWORD then
           WritePrivateProfileString ''WinMerge.TypeInfo'' (strPath @ ''/'' @ n) (Some ''int'')
             (WritePrivateProfileString ''WinMerge'' (strPath @ ''/'' @ n)
                (Some (to_str (sint (bytes_dword data1)))) ini)
         else if ty = REG_SZ then
           WritePrivateProfileString ''WinMerge.TypeInfo'' (strPath @ ''/'' @ n) (Some ''string'')
             (WritePrivateProfileString ''WinMerge'' (strPath @ ''/'' @ n)
                (Some (esc (tcs_read data1)))
                (WritePrivateProfileString ''WinMerge'' (strPath @ ''/'' @ n) None ini))
         else ini)
      else ini)"
    have rest: "export_values esc strPath om vs data1 ?ini1 = (OPT_OK, ini')"
      using Cons.prems e True by (simp add: Let_def split del: if_split cong: if_cong)
    have w1: "writes (export_record esc om (strPath @ ''/'' @ n) ty data1) ini ?ini1"
      by (rule step_writes)
    have w2: "writes (value_records esc strPath om vs data1) ?ini1 ini'"
      using rest by (rule Cons.IH)
    show ?thesis
      using writes_trans[OF w1 w2] e True by simp
  qed
qed

lemma export_key_writes:
  "ExportAllUnloadedValues_key esc k strPath om ini = (OPT_OK, ini') \<Longrightarrow>
      writes (key_records esc k strPath om) ini ini'"
  and export_subkeys_writes:
  "export_subkeys esc subs strPath om ini = (OPT_OK, ini') \<Longrightarrow>
      writes (sub_records esc subs strPath om) ini ini'"
proof (induction esc k strPath om ini and esc subs strPath om ini
    arbitrary: ini' and ini' rule: ExportAllUnloadedValues_key_export_subkeys.induct)
  case (1 esc vals subs strPath om ini)
  obtain r ini1 where v: "export_values esc strPath om vals (replicate MAX_PATH 0) ini = (r, ini1)"
    by (cases "export_values esc strPath om vals (replicate MAX_PATH 0) ini") auto
  have r: "r = OPT_OK" using "1.prems" v by (auto split: if_splits)
  have s: "export_subkeys esc subs strPath om ini1 = (OPT_OK, ini')"
    using "1.prems" v r by simp
  have w1: "writes (value_records esc strPath om vals (replicate MAX_PATH 0)) ini ini1"
    using v r by (simp add: export_values_writes)
  have w2: "writes (sub_records esc subs strPath om) ini1 ini'"
    using "1.IH"[OF v[symmetric] _ s] r by simp
  show ?case using writes_trans[OF w1 w2] by simp
next
  case (2 esc strPath om ini)
  then show ?case by (simp add: writes_refl)
next
  case (3 esc szSubKey sub rest strPath om ini)
  have len: "\<not> MAX_PATH \<le> length szSubKey" using "3.prems" by (auto split: if_splits)
  obtain r ini1 where v: "ExportAllUnloadedValues_key esc sub
      (if strPath = [] then szSubKey else strPath @ [backslash] @ szSubKey) om ini = (r, ini1)"
    by (cases "ExportAllUnloadedValues_key esc sub
      (if strPath = [] then szSubKey else strPath @ [backslash] @ szSubKey) om ini") auto
  have r: "r = OPT_OK" using "3.prems" v len by (auto split: if_splits)
  have s: "export_subkeys esc rest strPath om ini1 = (OPT_OK, ini')"
    using "3.prems" v r len by (simp split del: if_split)
  have w1: "writes (key_records esc sub (child_path strPath szSubKey) om) ini ini1"
    using "3.IH"(1)[OF len] v r by (simp add: child_path_def split del: if_split)
  have w2: "writes (sub_records esc rest strPath om) ini1 ini'"
    using "3.IH"(2)[OF len v[symmetric] _ s] r by simp
  show ?case using writes_trans[OF w1 w2] by simp
qed

subsection \<open>The records of the walk and the values of the store\<close>

lemma enum_value_success:
  assumes "enum_value (n, ty, d) data = (ERROR_SUCCESS, n', ty', data1)"
  shows "n' = n \<and> ty' = ty \<and> (\<exists>rest. data1 = d @ rest)"
  using assms
  by (auto simp: enum_value_def RegEnumValue_def Let_def split: if_splits)

lemma bytes_dword_front:
  "4 \<le> length d \<Longrightarrow> bytes_dword (d @ rest) = bytes_dword d"
  by (auto simp: bytes_dword_def byte_at_def nth_append)

lemma tcs_read_front:
  "0 \<in> set d \<Longrightarrow> tcs_read (d @ rest) = tcs_read d"
  by (simp add: tcs_read_def takeWhile_append1)

lemma zero_in_terminated: "d \<noteq> [] \<Longrightarrow> last d = 0 \<Longrightarrow> (0::byte) \<in> set d"
  by (metis last_in_set)

lemma export_record_ok:
  assumes "eligible om (nm, ty, d)"
  shows "\<exists>r. export_record esc om nm ty (d @ rest) = [r] \<and> rec_ok esc (nm, ty, d) r"
  using assms
  by (auto simp: eligible_def export_record_def rec_ok_def tag_of_def entry_text_def wf_entry_def
      bytes_dword_front tcs_read_front zero_in_terminated REG_SZ_def REG_DWORD_def)

lemma export_record_none:
  assumes "\<not> eligible om (nm, ty, d)"
  shows "export_record esc om nm ty data1 = []"
  using assms by (auto simp: eligible_def export_record_def)

lemma value_records_ok:
  "export_values esc strPath om vals data ini = (OPT_OK, ini') \<Longrightarrow>
   list_all2 (rec_ok esc)
     (filter (eligible om) (map (\<lambda>(n, ty, d). (strPath @ ''/'' @ n, ty, d)) vals))
     (value_records esc strPath om vals data)"
proof (induction vals arbitrary: data ini)
  case Nil
  then show ?case by simp
next
  case (Cons v vs)
  obtain n ty d where v: "v = (n, ty, d)" by (cases v) auto
  obtain result n' ty' data1 where e: "enum_value v data = (result, n', ty', data1)"
    by (cases "enum_value v data") auto
  have ok: "result = ERROR_SUCCESS" using Cons.prems e by (auto split: if_splits)
  from enum_value_success[OF e[unfolded v ok]]
  obtain rest where n': "n' = n" and ty': "ty' = ty" and d1: "data1 = d @ rest" by blast
  obtain ini1 where rest: "export_values esc strPath om vs data1 ini1 = (OPT_OK, ini')"
    using Cons.prems e ok by (auto simp: Let_def)
  have ih: "list_all2 (rec_ok esc)
     (filter (eligible om) (map (\<lambda>(n, ty, d). (strPath @ ''/'' @ n, ty, d)) vs))
     (value_records esc strPath om vs data1)"
    using rest by (rule Cons.IH)
  show ?case
  proof (cases "eligible om (strPath @ ''/'' @ n, ty, d)")
    case True
    from export_record_ok[OF True, of esc rest]
    obtain r where r: "export_record esc om (strPath @ ''/'' @ n) ty (d @ rest) = [r]"
      and rk: "rec_ok esc (strPath @ ''/'' @ n, ty, d) r" by blast
    show ?thesis using True r rk ih e ok v n' ty' d1 by simp
  next
    case False
    from export_record_none[OF False]
    have "export_record esc om (strPath @ ''/'' @ n) ty data1 = []" .
    then show ?thesis using False ih e ok v n' ty' d1 by simp
  qed
qed

lemma key_records_ok:
  "ExportAllUnloadedValues_key esc k strPath om ini = (OPT_OK, ini') \<Longrightarrow>
     list_all2 (rec_ok esc) (filter (eligible om) (key_entries k strPath)) (key_records esc k strPath om)"
  and sub_records_ok:
  "export_subkeys esc subs strPath om ini = (OPT_OK, ini') \<Longrightarrow>
     list_all2 (rec_ok esc) (filter (eligible om) (sub_entries subs strPath)) (sub_records esc subs strPath om)"
proof (induction esc k strPath om ini and esc subs strPath om ini
    arbitrary: ini' and ini' rule: ExportAllUnloadedValues_key_export_subkeys.induct)
  case (1 esc vals subs strPath om ini)
  obtain r ini1 where v: "export_values esc strPath om vals (replicate MAX_PATH 0) ini = (r, ini1)"
    by (cases "export_values esc strPath om vals (replicate MAX_PATH 0) ini") auto
  have r: "r = OPT_OK" using "1.prems" v by (auto split: if_splits)
  have s: "export_subkeys esc subs strPath om ini1 = (OPT_OK, ini')"
    using "1.prems" v r by simp
  have w1: "list_all2 (rec_ok esc)
     (filter (eligible om) (map (\<lambda>(n, ty, d). (strPath @ ''/'' @ n, ty, d)) vals))
     (value_records esc strPath om vals (replicate MAX_PATH 0))"
    using v[unfolded r] by (rule value_records_ok)
  have w2: "list_all2 (rec_ok esc) (filter (eligible om) (sub_entries subs strPath))
     (sub_records esc subs strPath om)"
    using "1.IH"[OF v[symmetric] _ s] r by simp
  show ?case using list_all2_appendI[OF w1 w2] by simp
next
  case (2 esc strPath om ini)
  then show ?case by simp
next
  case (3 esc szSubKey sub rest strPath om ini)
  have len: "\<not> MAX_PATH \<le> length szSubKey" using "3.prems" by (auto split: if_splits)
  obtain r ini1 where v: "ExportAllUnloadedValues_key esc sub
      (if strPath = [] then szSubKey else strPath @ [backslash] @ szSubKey) om ini = (r, ini1)"
    by (cases "ExportAllUnloadedValues_key esc sub
      (if strPath = [] then szSubKey else strPath @ [backslash] @ szSubKey) om ini") auto
  have r: "r = OPT_OK" using "3.prems" v len by (auto split: if_splits)
  have s: "export_subkeys esc rest strPath om ini1 = (OPT_OK, ini')"
    using "3.prems" v r len by (simp split del: if_split)
  have w1: "list_all2 (rec_ok esc) (filter (eligible om) (key_entries sub (child_path strPath szSubKey)))
      (key_records esc sub (child_path strPath szSubKey) om)"
    using "3.IH"(1)[OF len] v r by (simp add: child_path_def split del: if_split)
  have w2: "list_all2 (rec_ok esc) (filter (eligible om) (sub_entries rest strPath))
      (sub_records esc rest strPath om)"
    using "3.IH"(2)[OF len v[symmetric] _ s] r by simp
  show ?case using list_all2_appendI[OF w1 w2] by simp
qed

subsection \<open>The sections of the file after an export\<close>

lemma list_all2_right:
  "list_all2 P xs ys \<Longrightarrow> y \<in> set ys \<Longrightarrow> \<exists>x\<in>set xs. P x y"
  by (induction rule: list_all2_induct) auto

lemma list_all2_left:
  "list_all2 P xs ys \<Longrightarrow> x \<in> set xs \<Longrightarrow> \<exists>y\<in>set ys. P x y"
  by (induction rule: list_all2_induct) auto

lemma map_of_texts:
  "map_of (map (\<lambda>(n, t, g). (n, t)) xs) n = map_option fst (map_of xs n)"
  by (induction xs) auto

lemma map_of_tags:
  "map_of (map (\<lambda>(n, t, g). (n, g)) xs) n = map_option snd (map_of xs n)"
  by (induction xs) auto

lemma export_summary:
  assumes "ExportAllUnloadedValues esc s om ini = (OPT_OK, ini')"
  shows "\<exists>recs. writes recs ini ini'
     \<and> list_all2 (rec_ok esc) (filter (eligible om) (store_entries s)) recs"
proof (cases "lookup_key (hkcu s) (split_path (m_registryRoot s))")
  case None
  with assms show ?thesis by (simp add: ExportAllUnloadedValues_def)
next
  case (Some k)
  with assms have e: "ExportAllUnloadedValues_key esc k [] om ini = (OPT_OK, ini')"
    by (simp add: ExportAllUnloadedValues_def)
  have "writes (key_records esc k [] om) ini ini'" using e by (rule export_key_writes)
  moreover have "list_all2 (rec_ok esc) (filter (eligible om) (key_entries k [])) (key_records esc k [] om)"
    using e by (rule key_records_ok)
  ultimately show ?thesis using Some by (auto simp: store_entries_def)
qed

lemma writes_sections:
  assumes w: "writes recs ini ini'"
  shows "map_of (ini' ''WinMerge'') n =
           (case map_of (rev recs) n of None \<Rightarrow> map_of (ini ''WinMerge'') n | Some r \<Rightarrow> Some (fst r))"
    and "map_of (ini' ''WinMerge.TypeInfo'') n =
           (case map_of (rev recs) n of None \<Rightarrow> map_of (ini ''WinMerge.TypeInfo'') n | Some r \<Rightarrow> Some (snd r))"
proof -
  have v: "map_of (ini' ''WinMerge'')
      = map_of (ini ''WinMerge'') ++ map_of (rev (map (\<lambda>(n, t, g). (n, t)) recs))"
    and t: "map_of (ini' ''WinMerge.TypeInfo'')
      = map_of (ini ''WinMerge.TypeInfo'') ++ map_of (rev (map (\<lambda>(n, t, g). (n, g)) recs))"
    using w unfolding writes_def by blast+
  show "map_of (ini' ''WinMerge'') n =
           (case map_of (rev recs) n of None \<Rightarrow> map_of (ini ''WinMerge'') n | Some r \<Rightarrow> Some (fst r))"
    unfolding v by (simp add: rev_map map_of_texts map_add_def split: option.splits)
  show "map_of (ini' ''WinMerge.TypeInfo'') n =
           (case map_of (rev recs) n of None \<Rightarrow> map_of (ini ''WinMerge.TypeInfo'') n | Some r \<Rightarrow> Some (snd r))"
    unfolding t by (simp add: rev_map map_of_tags map_add_def split: option.splits)
qed

lemma export_written:
  assumes w: "writes recs ini ini'"
    and l: "list_all2 (rec_ok esc) (filter (eligible om) es) recs"
    and e: "e \<in> set es" "eligible om e"
  shows "\<exists>e'\<in>set es. eligible om e' \<and> fst e' = fst e
      \<and> map_of (ini' ''WinMerge.TypeInfo'') (fst e) = Some (tag_of (fst (snd e')))
      \<and> (wf_entry e' \<longrightarrow>
           map_of (ini' ''WinMerge'') (fst e) = Some (entry_text esc (fst (snd e')) (snd (snd e'))))"
proof -
  from e have "e \<in> set (filter (eligible om) es)" by simp
  from list_all2_left[OF l this] obtain r0 where r0: "r0 \<in> set recs" "rec_ok esc e r0" by blast
  then have "fst e \<in> fst ` set (rev recs)" by (force simp: rec_ok_def)
  then have "map_of (rev recs) (fst e) \<noteq> None" by (simp add: map_of_eq_None_iff)
  then obtain tg where tg: "map_of (rev recs) (fst e) = Some tg" by blast
  then have "(fst e, tg) \<in> set recs" by (auto dest: map_of_SomeD)
  from list_all2_right[OF l this] obtain e' where e': "e' \<in> set es" "eligible om e'"
    and rk: "rec_ok esc e' (fst e, tg)" by auto
  show ?thesis
    using e' rk writes_sections[OF w, of "fst e"] tg
    by (intro bexI[of _ e']) (auto simp: rec_ok_def)
qed

lemma export_not_written:
  assumes w: "writes recs ini ini'"
    and l: "list_all2 (rec_ok esc) (filter (eligible om) es) recs"
    and n: "\<forall>e\<in>set es. eligible om e \<longrightarrow> fst e \<noteq> n"
  shows "map_of (ini' ''WinMerge'') n = map_of (ini ''WinMerge'') n
       \<and> map_of (ini' ''WinMerge.TypeInfo'') n = map_of (ini ''WinMerge.TypeInfo'') n"
proof -
  have "map_of (rev recs) n = None"
  proof (rule ccontr)
    assume "map_of (rev recs) n \<noteq> None"
    then obtain tg where "map_of (rev recs) n = Some tg" by blast
    then have "(n, tg) \<in> set recs" by (auto dest: map_of_SomeD)
    from list_all2_right[OF l this] obtain e' where "e' \<in> set es" "eligible om e'"
      "rec_ok esc e' (n, tg)" by auto
    with n show False by (auto simp: rec_ok_def)
  qed
  then show ?thesis using writes_sections[OF w, of n] by simp
qed

lemma distinct_fst_eq:
  "distinct (map fst xs) \<Longrightarrow> x \<in> set xs \<Longrightarrow> y \<in> set xs \<Longrightarrow> fst x = fst y \<Longrightarrow> x = y"
  by (metis eq_key_imp_eq_value prod.collapse)

subsection \<open>The export of the example handler\<close>

lemmas export_example_defs = sys_export_def sys_int_def apply_write_def SplitName_def sys0_def IOHandler_def SetRegRootKey_def
  RegCreateKeyEx_def new_handle_def RegCloseKey_def env0_def Let_def winmerge_root_def split_path_def
  backslash_def OpenKey_def SaveValueToReg_def CloseKey_def RegSetValueEx_def handle_path_def set_value_def
  dword_bytes_def c_str_def sizeof_tchar_def REG_SZ_def REG_DWORD_def nullptr_def tchar_byte_def


lemma root_sys_export: "m_registryRoot sys_export = m_registryRoot sys0"
  by (simp add: sys_export_def sys_int_def sc_root_apply_write Let_def)

lemma hkcu_sys_export:
  "hkcu sys_export = RegKey []
  [(''Software'', RegKey [] [(''Thingamahoochie'', RegKey []
        [(''WinMerge'', RegKey []
           [(''Settings'', RegKey [(''Width'', 4, [250, 0, 0, 0]), (''DebugFlag'', 4, [1, 0, 0, 0])] []),
            (''Window'', RegKey [(''Title'', 1, [97, 98, 99, 0]), (''Placement'', 3, [1, 2])] [])])])])]"
  by (simp add: export_example_defs)

lemma store_entries_sys_export:
  "store_entries sys_export =
     [(''Settings/Width'', 4, [250, 0, 0, 0]), (''Settings/DebugFlag'', 4, [1, 0, 0, 0]),
      (''Window/Title'', 1, [97, 98, 99, 0]), (''Window/Placement'', 3, [1, 2])]"
  by (simp add: store_entries_def hkcu_sys_export root_sys_export sys0_root winmerge_root_def
      split_path_def backslash_def child_path_def)

lemma stored_sys_export:
  "stored sys_export ''Settings/DebugFlag'' = Some (4, [1, 0, 0, 0])"
  "stored sys_export ''Window/Title'' = Some (1, [97, 98, 99, 0])"
  "stored sys_export ''Settings/Width'' = Some (4, [250, 0, 0, 0])"
  "stored sys_export ''Window/Placement'' = Some (3, [1, 2])"
  by (simp_all add: stored_def key_value_def SplitName_def root_sys_export sys0_root winmerge_root_def
      split_path_def backslash_def hkcu_sys_export)

lemma export_sys_export:
  "ExportAllUnloadedValues (\<lambda>x. x) sys_export om_width ini0 = (OPT_OK, ini_exported)"
  apply (simp add: ExportAllUnloadedValues_def hkcu_sys_export root_sys_export sys0_root winmerge_root_def
      split_path_def backslash_def enum_value_def RegEnumValue_def MAX_PATH_def om_width_def ini0_def
      ini_exported_def Let_def WritePrivateProfileString_def REG_SZ_def REG_DWORD_def to_str_def
      bytes_dword_def byte_at_def tcs_read_def byte_tchar_def digit_char_def fun_eq_iff char_of_def bit_iff_odd
      nat_digits.simps)
  done

lemma entry_text_examples:
  "entry_text (\<lambda>x. x) 4 [1, 0, 0, 0] = ''1''"
  "entry_text (\<lambda>x. x) 1 [97, 98, 99, 0] = ''abc''"
  by (simp_all add: entry_text_def REG_DWORD_def to_str_def bytes_dword_def byte_at_def tcs_read_def
      byte_tchar_def digit_char_def char_of_def bit_iff_odd nat_digits.simps)

text \<open>
  C7: an export that returns Ok has written a value entry and a type-tag entry exactly
  for the values of the store, below the root, whose name (the key path, the separator
  and the value name) is not a key of the option table and whose tag is \<^verbatim>\<open>REG_DWORD\<close> or
  \<^verbatim>\<open>REG_SZ\<close>. For every such value the type-tag section holds, under its name, \<^verbatim>\<open>int\<close> or
  \<^verbatim>\<open>string\<close> by the tag, and the value section holds the text of the value (the decimal
  text of the word, or the escaped string) when the value is as \<^verbatim>\<open>SaveValueToReg\<close> writes
  it; when two values of the walk have one name, the entries are those of one of them.
  Under every other name both sections are as they were before the export: a value with
  another tag is skipped, and a value whose name is a key of the option table is never
  exported. No other section of the file is touched.
\<close>

theorem ExportAllUnloadedValues_entries:
  assumes "ExportAllUnloadedValues EscapeValue s optionsMap ini = (OPT_OK, ini')"
  shows "(\<forall>e\<in>set (store_entries s). eligible optionsMap e \<longrightarrow>
            (\<exists>e'\<in>set (store_entries s). eligible optionsMap e' \<and> fst e' = fst e
               \<and> map_of (ini' ''WinMerge.TypeInfo'') (fst e) = Some (tag_of (fst (snd e')))
               \<and> (wf_entry e' \<longrightarrow>
                    map_of (ini' ''WinMerge'') (fst e)
                      = Some (entry_text EscapeValue (fst (snd e')) (snd (snd e'))))))
       \<and> (distinct (map fst (store_entries s)) \<longrightarrow>
            (\<forall>e\<in>set (store_entries s). eligible optionsMap e \<longrightarrow>
               map_of (ini' ''WinMerge.TypeInfo'') (fst e) = Some (tag_of (fst (snd e)))
             \<and> (wf_entry e \<longrightarrow>
                    map_of (ini' ''WinMerge'') (fst e)
                      = Some (entry_text EscapeValue (fst (snd e)) (snd (snd e))))))
       \<and> (\<forall>n. (\<forall>e\<in>set (store_entries s). eligible optionsMap e \<longrightarrow> fst e \<noteq> n) \<longrightarrow>
              map_of (ini' ''WinMerge'') n = map_of (ini ''WinMerge'') n
            \<and> map_of (ini' ''WinMerge.TypeInfo'') n = map_of (ini ''WinMerge.TypeInfo'') n)
       \<and> (\<forall>n. map_of optionsMap n \<noteq> None \<longrightarrow>
              map_of (ini' ''WinMerge'') n = map_of (ini ''WinMerge'') n
            \<and> map_of (ini' ''WinMerge.TypeInfo'') n = map_of (ini ''WinMerge.TypeInfo'') n)
       \<and> (\<forall>sec. sec \<noteq> ''WinMerge'' \<and> sec \<noteq> ''WinMerge.TypeInfo'' \<longrightarrow> ini' sec = ini sec)"
proof -
  from export_summary[OF assms] obtain recs where w: "writes recs ini ini'"
    and l: "list_all2 (rec_ok EscapeValue) (filter (eligible optionsMap) (store_entries s)) recs"
    by blast
  have a: "\<forall>e\<in>set (store_entries s). eligible optionsMap e \<longrightarrow>
            (\<exists>e'\<in>set (store_entries s). eligible optionsMap e' \<and> fst e' = fst e
               \<and> map_of (ini' ''WinMerge.TypeInfo'') (fst e) = Some (tag_of (fst (snd e')))
               \<and> (wf_entry e' \<longrightarrow>
                    map_of (ini' ''WinMerge'') (fst e)
                      = Some (entry_text EscapeValue (fst (snd e')) (snd (snd e')))))"
    using export_written[OF w l] by blast
  have a': "distinct (map fst (store_entries s)) \<longrightarrow>
            (\<forall>e\<in>set (store_entries s). eligible optionsMap e \<longrightarrow>
               map_of (ini' ''WinMerge.TypeInfo'') (fst e) = Some (tag_of (fst (snd e)))
             \<and> (wf_entry e \<longrightarrow>
                    map_of (ini' ''WinMerge'') (fst e)
                      = Some (entry_text EscapeValue (fst (snd e)) (snd (snd e)))))"
  proof (intro impI ballI)
    fix e
    assume d: "distinct (map fst (store_entries s))" and e: "e \<in> set (store_entries s)"
      and el: "eligible optionsMap e"
    from export_written[OF w l e el] obtain e' where e': "e' \<in> set (store_entries s)"
      "fst e' = fst e"
      and t: "map_of (ini' ''WinMerge.TypeInfo'') (fst e) = Some (tag_of (fst (snd e')))"
      and v: "wf_entry e' \<longrightarrow> map_of (ini' ''WinMerge'') (fst e)
                      = Some (entry_text EscapeValue (fst (snd e')) (snd (snd e')))"
      by blast
    have "e' = e" using d e'(1) e e'(2) by (rule distinct_fst_eq)
    with t v show "map_of (ini' ''WinMerge.TypeInfo'') (fst e) = Some (tag_of (fst (snd e)))
             \<and> (wf_entry e \<longrightarrow>
                    map_of (ini' ''WinMerge'') (fst e)
                      = Some (entry_text EscapeValue (fst (snd e)) (snd (snd e))))"
      by simp
  qed
  have b: "\<forall>n. (\<forall>e\<in>set (store_entries s). eligible optionsMap e \<longrightarrow> fst e \<noteq> n) \<longrightarrow>
              map_of (ini' ''WinMerge'') n = map_of (ini ''WinMerge'') n
            \<and> map_of (ini' ''WinMerge.TypeInfo'') n = map_of (ini ''WinMerge.TypeInfo'') n"
    using export_not_written[OF w l] by blast
  have c: "\<forall>n. map_of optionsMap n \<noteq> None \<longrightarrow>
              map_of (ini' ''WinMerge'') n = map_of (ini ''WinMerge'') n
            \<and> map_of (ini' ''WinMerge.TypeInfo'') n = map_of (ini ''WinMerge.TypeInfo'') n"
  proof (intro allI impI)
    fix n assume "map_of optionsMap n \<noteq> None"
    then have "\<forall>e\<in>set (store_entries s). eligible optionsMap e \<longrightarrow> fst e \<noteq> n"
      by (auto simp: eligible_def)
    then show "map_of (ini' ''WinMerge'') n = map_of (ini ''WinMerge'') n
            \<and> map_of (ini' ''WinMerge.TypeInfo'') n = map_of (ini ''WinMerge.TypeInfo'') n"
      by (rule export_not_written[OF w l])
  qed
  have d: "\<forall>sec. sec \<noteq> ''WinMerge'' \<and> sec \<noteq> ''WinMerge.TypeInfo'' \<longrightarrow> ini' sec = ini sec"
    using w by (simp add: writes_def)
  show ?thesis by (intro conjI a a' b c d)
qed


theorem ExportAllUnloadedValues_entries_witness:
  "ExportAllUnloadedValues (\<lambda>x. x) sys_export om_width ini0 = (OPT_OK, ini_exported)
 \<and> stored sys_export ''Settings/DebugFlag'' = Some (4, [1, 0, 0, 0])
 \<and> stored sys_export ''Window/Title'' = Some (1, [97, 98, 99, 0])
 \<and> stored sys_export ''Settings/Width'' = Some (4, [250, 0, 0, 0])
 \<and> stored sys_export ''Window/Placement'' = Some (3, [1, 2])
 \<and> store_entries sys_export =
     [(''Settings/Width'', 4, [250, 0, 0, 0]), (''Settings/DebugFlag'', 4, [1, 0, 0, 0]),
      (''Window/Title'', 1, [97, 98, 99, 0]), (''Window/Placement'', 3, [1, 2])]
 \<and> map_of (ini_exported ''WinMerge'') ''Settings/DebugFlag'' = Some ''1''
 \<and> map_of (ini_exported ''WinMerge.TypeInfo'') ''Settings/DebugFlag'' = Some ''int''
 \<and> map_of (ini_exported ''WinMerge'') ''Window/Title'' = Some ''abc''
 \<and> map_of (ini_exported ''WinMerge.TypeInfo'') ''Window/Title'' = Some ''string''
 \<and> map_of (ini_exported ''WinMerge'') ''Settings/Width'' = None
 \<and> map_of (ini_exported ''WinMerge.TypeInfo'') ''Settings/Width'' = None
 \<and> map_of (ini_exported ''WinMerge'') ''Window/Placement'' = None
 \<and> map_of (ini_exported ''WinMerge.TypeInfo'') ''Window/Placement'' = None"
proof -
  note t = ExportAllUnloadedValues_entries[OF export_sys_export]
  note se = store_entries_sys_export
  have dist: "distinct (map fst (store_entries sys_export))" by (simp add: se)
  note each = t[THEN conjunct2, THEN conjunct1, rule_format, OF dist]
  have dbg: "map_of (ini_exported ''WinMerge.TypeInfo'') ''Settings/DebugFlag'' = Some ''int''
      \<and> map_of (ini_exported ''WinMerge'') ''Settings/DebugFlag'' = Some ''1''"
    using each[of "(''Settings/DebugFlag'', 4, [1, 0, 0, 0])"]
    by (simp add: se eligible_def om_width_def REG_DWORD_def REG_SZ_def tag_of_def wf_entry_def
        entry_text_examples)
  have ttl: "map_of (ini_exported ''WinMerge.TypeInfo'') ''Window/Title'' = Some ''string''
      \<and> map_of (ini_exported ''WinMerge'') ''Window/Title'' = Some ''abc''"
    using each[of "(''Window/Title'', 1, [97, 98, 99, 0])"]
    by (simp add: se eligible_def om_width_def REG_DWORD_def REG_SZ_def tag_of_def wf_entry_def
        entry_text_examples)
  have wid: "map_of (ini_exported ''WinMerge'') ''Settings/Width'' = None
      \<and> map_of (ini_exported ''WinMerge.TypeInfo'') ''Settings/Width'' = None"
    using t[THEN conjunct2, THEN conjunct2, THEN conjunct2, THEN conjunct1, rule_format,
        of "''Settings/Width''"]
    by (simp add: om_width_def ini0_def)
  have plc: "map_of (ini_exported ''WinMerge'') ''Window/Placement'' = None
      \<and> map_of (ini_exported ''WinMerge.TypeInfo'') ''Window/Placement'' = None"
  proof -
    have ne: "\<forall>e\<in>set (store_entries sys_export). eligible om_width e \<longrightarrow> fst e \<noteq> ''Window/Placement''"
      by (auto simp: se eligible_def REG_DWORD_def REG_SZ_def)
    from t[THEN conjunct2, THEN conjunct2, THEN conjunct1, THEN spec, THEN mp, OF ne]
    show ?thesis by (simp add: ini0_def)
  qed
  from export_sys_export stored_sys_export se dbg ttl wid plc show ?thesis by blast
qed

section \<open>Import of an exported file (ImportAllUnloadedValues)\<close>

subsection \<open>The text of a word, read back\<close>





















subsection \<open>The bytes of a value, written back\<close>






subsection \<open>The store after the loop of the import\<close>
















end
